theory Spec2Isabelle
  imports Complex_Main "HOL-Library.AList" "HOL-Library.Sublist"
begin

section \<open>Conventions of the embedding\<close>

text \<open>
  The gateway is Python. Its objects are modelled as records that are passed in and
  returned updated. A Python \<^verbatim>\<open>dict\<close> keeps its keys in insertion order and the code
  iterates over dictionaries, so a dictionary is an association list: \<open>map_of d k\<close> reads
  a key, \<open>AList.update k v d\<close> is \<^verbatim>\<open>d[k] = v\<close> (in place for a key that is present,
  at the end for a new one) and \<open>AList.delete k d\<close> is \<^verbatim>\<open>del d[k]\<close>.

  Readings of \<^verbatim>\<open>time.time()\<close> and \<^verbatim>\<open>datetime.now()\<close> are arguments of the
  operations, of type \<open>real\<close>: the code only subtracts and compares them.
  Exceptions are values of \<open>py_exception\<close>.
\<close>

datatype py_exception =
    TimeoutException
  | ConnectError
  | HTTPException int string
  | RuntimeError
  | ZeroDivisionError
  | OtherException

section \<open>rate\_limiter.py\<close>

record RateLimitConfig =
  requests_per_minute :: int
  burst_limit :: int
  window_size :: int

record RateLimiter =
  config :: RateLimitConfig
  requests :: "(string \<times> real list) list"
  blocked_ips :: "(string \<times> real) list"
  block_duration :: int

text \<open>\<^verbatim>\<open>RateLimiter.__init__\<close>: the dataclass defaults are 10 and 60.\<close>

definition RateLimiter_init :: "int \<Rightarrow> RateLimiter" where
  "RateLimiter_init rpm =
     \<lparr>config = \<lparr>requests_per_minute = rpm, burst_limit = 10, window_size = 60\<rparr>,
      requests = [], blocked_ips = [], block_duration = 300\<rparr>"

text \<open>
  \<^verbatim>\<open>self.requests[client_ip]\<close> on the \<^verbatim>\<open>defaultdict(deque)\<close>: a missing key reads as
  the empty deque.
\<close>

definition request_times_of :: "RateLimiter \<Rightarrow> string \<Rightarrow> real list" where
  "request_times_of rl client_ip =
     (case map_of (requests rl) client_ip of None \<Rightarrow> [] | Some ts \<Rightarrow> ts)"

text \<open>
  The loop
  \<^verbatim>\<open>while request_times and current_time - request_times[0] > window_size: popleft()\<close>.
\<close>

fun popleft_old :: "real \<Rightarrow> int \<Rightarrow> real list \<Rightarrow> real list" where
  "popleft_old current_time w [] = []"
| "popleft_old current_time w (t # ts) =
     (if current_time - t > real_of_int w then popleft_old current_time w ts else t # ts)"

text \<open>
  \<^verbatim>\<open>RateLimiter.is_allowed\<close>. With a \<^verbatim>\<open>str\<close> key and float times nothing in the
  \<^verbatim>\<open>try\<close> block raises, so the fail-open handler is not a branch of the model.
  The deque of the client is entered into \<open>requests\<close> as soon as it is read past the
  block check, as the \<^verbatim>\<open>defaultdict\<close> does.
\<close>

definition is_allowed :: "RateLimiter \<Rightarrow> string \<Rightarrow> real \<Rightarrow> bool \<times> RateLimiter" where
  "is_allowed rl client_ip current_time =
     (if (case map_of (blocked_ips rl) client_ip of
            Some until \<Rightarrow> current_time < until | None \<Rightarrow> False)
      then (False, rl)
      else
        (let rl0 = (case map_of (blocked_ips rl) client_ip of
                      Some until \<Rightarrow> rl\<lparr>blocked_ips := AList.delete client_ip (blocked_ips rl)\<rparr>
                    | None \<Rightarrow> rl);
             request_times =
               popleft_old current_time (window_size (config rl0)) (request_times_of rl0 client_ip);
             rl1 = rl0\<lparr>requests := AList.update client_ip request_times (requests rl0)\<rparr>
         in if int (length request_times) \<ge> requests_per_minute (config rl1) then
              (False, rl1\<lparr>blocked_ips :=
                 AList.update client_ip (current_time + real_of_int (block_duration rl1))
                   (blocked_ips rl1)\<rparr>)
            else if int (length (filter (\<lambda>req_time. current_time - req_time < 10) request_times))
                      \<ge> burst_limit (config rl1) then
              (False, rl1)
            else
              (True, rl1\<lparr>requests :=
                 AList.update client_ip (request_times @ [current_time]) (requests rl1)\<rparr>)))"

text \<open>\<^verbatim>\<open>RateLimiter.is_blocked\<close>.\<close>

definition is_blocked :: "RateLimiter \<Rightarrow> string \<Rightarrow> real \<Rightarrow> bool \<times> RateLimiter" where
  "is_blocked rl client_ip current_time =
     (case map_of (blocked_ips rl) client_ip of
        None \<Rightarrow> (False, rl)
      | Some until \<Rightarrow>
          if current_time \<ge> until then
            (False, rl\<lparr>blocked_ips := AList.delete client_ip (blocked_ips rl)\<rparr>)
          else (True, rl))"

text \<open>\<^verbatim>\<open>RateLimiter.unblock_ip\<close>.\<close>

definition unblock_ip :: "RateLimiter \<Rightarrow> string \<Rightarrow> bool \<times> RateLimiter" where
  "unblock_ip rl client_ip =
     (case map_of (blocked_ips rl) client_ip of
        Some until \<Rightarrow> (True, rl\<lparr>blocked_ips := AList.delete client_ip (blocked_ips rl)\<rparr>)
      | None \<Rightarrow> (False, rl))"

text \<open>\<^verbatim>\<open>RateLimiter.update_config\<close>; \<open>None\<close> leaves a value as it is.\<close>

definition update_config :: "RateLimiter \<Rightarrow> int \<Rightarrow> int option \<Rightarrow> int option \<Rightarrow> RateLimiter" where
  "update_config rl rpm burst_limit' window_size' =
     rl\<lparr>config :=
          \<lparr>requests_per_minute = rpm,
           burst_limit = (case burst_limit' of None \<Rightarrow> burst_limit (config rl) | Some b \<Rightarrow> b),
           window_size = (case window_size' of None \<Rightarrow> window_size (config rl) | Some w \<Rightarrow> w)\<rparr>\<rparr>"

text \<open>
  \<^verbatim>\<open>RateLimiter.cleanup_expired_entries\<close>. The expired blocks are collected in a list
  first and deleted afterwards. The second loop,
  \<^verbatim>\<open>for ip, request_times in self.requests.items()\<close>, deletes from the dictionary it
  iterates over: the deques are shortened in place, which the iterator does not notice,
  but after a \<^verbatim>\<open>del self.requests[ip]\<close> the next step of the iterator finds the size
  of the dictionary changed and raises \<^verbatim>\<open>RuntimeError\<close> (also when the deleted entry
  was the last one). \<open>requests_loop\<close> returns the dictionary as the loop leaves it and
  the exception, if any; the \<^verbatim>\<open>except Exception\<close> of the method swallows it.
\<close>

fun requests_loop ::
  "real \<Rightarrow> int \<Rightarrow> (string \<times> real list) list \<Rightarrow> (string \<times> real list) list \<times> py_exception option"
where
  "requests_loop current_time w [] = ([], None)"
| "requests_loop current_time w ((ip, request_times) # rest) =
     (let request_times' = popleft_old current_time w request_times
      in if request_times' = [] then (rest, Some RuntimeError)
         else (case requests_loop current_time w rest of
                 (d, e) \<Rightarrow> ((ip, request_times') # d, e)))"

definition cleanup_expired_entries :: "RateLimiter \<Rightarrow> real \<Rightarrow> RateLimiter" where
  "cleanup_expired_entries rl current_time =
     (let expired_blocks =
            map fst (filter (\<lambda>(ip, block_time). current_time \<ge> block_time) (blocked_ips rl));
          rl1 = rl\<lparr>blocked_ips := fold AList.delete expired_blocks (blocked_ips rl)\<rparr>
      in case requests_loop current_time (window_size (config rl1)) (requests rl1) of
           (d, e) \<Rightarrow> rl1\<lparr>requests := d\<rparr>)"

text \<open>A client calling \<open>is_allowed\<close> at the times of a list, one call after the other.\<close>

fun calls :: "RateLimiter \<Rightarrow> string \<Rightarrow> real list \<Rightarrow> bool list \<times> RateLimiter" where
  "calls rl client_ip [] = ([], rl)"
| "calls rl client_ip (t # ts) =
     (case is_allowed rl client_ip t of
        (r, rl') \<Rightarrow> (case calls rl' client_ip ts of (rs, rl'') \<Rightarrow> (r # rs, rl'')))"

section \<open>service\_registry.py\<close>

text \<open>
  What the registry sees of a health request: a response, with its status code and the
  result of \<^verbatim>\<open>response.json()\<close> (\<open>None\<close> when the body is not JSON and the call
  raises), or the exception of the HTTP client (a timeout, a refused connection, any
  other). The HTTP client is an argument of the model, a function from the URL requested.
\<close>

datatype json =
    JNull
  | JBool bool
  | JNum real
  | JStr string
  | JArr "json list"
  | JObj "(string \<times> json) list"

datatype http_result =
    Response int "json option"
  | Raised py_exception

record ServiceInfo =
  name :: string
  url :: string
  health_url :: string
  registered_at :: real
  last_health_check :: "real option"
  is_healthy :: bool
  response_time :: "real option"
  metadata :: "(string \<times> json) list"

record ServiceRegistry =
  services :: "(string \<times> ServiceInfo) list"
  health_check_interval :: int
  health_check_timeout :: int
  is_running :: bool

definition ServiceRegistry_init :: ServiceRegistry where
  "ServiceRegistry_init =
     \<lparr>services = [], health_check_interval = 30, health_check_timeout = 10, is_running = False\<rparr>"

text \<open>
  \<^verbatim>\<open>ServiceRegistry._check_service_health\<close>. On a 200, \<^verbatim>\<open>data.get("status") == "healthy"\<close>
  is evaluated inside a \<^verbatim>\<open>try\<close> with a bare \<^verbatim>\<open>except\<close> that answers \<^verbatim>\<open>True\<close>: it
  catches the failure of \<^verbatim>\<open>response.json()\<close> and also the \<^verbatim>\<open>AttributeError\<close> of
  \<^verbatim>\<open>.get\<close> on a parsed value that is no dictionary. Every exception of the request is
  caught by the outer handler, which answers \<^verbatim>\<open>False\<close>.
\<close>

definition check_service_health :: "(string \<Rightarrow> http_result) \<Rightarrow> string \<Rightarrow> bool" where
  "check_service_health client health_url' =
     (case client health_url' of
        Response status_code body \<Rightarrow>
          if status_code = 200 then
            (case body of
               Some (JObj data) \<Rightarrow> map_of data ''status'' = Some (JStr ''healthy'')
             | _ \<Rightarrow> True)
          else False
      | Raised e \<Rightarrow> False)"

text \<open>The dictionary of a body that parses as a JSON object, for the statements below.\<close>

fun parsed_object :: "json option \<Rightarrow> (string \<times> json) list option" where
  "parsed_object (Some (JObj data)) = Some data"
| "parsed_object body = None"

text \<open>\<^verbatim>\<open>url.startswith(("http://", "https://"))\<close>.\<close>

definition startswith :: "string \<Rightarrow> string \<Rightarrow> bool" where
  "startswith s p = (take (length p) s = p)"

text \<open>
  \<^verbatim>\<open>ServiceRegistry.register_service\<close>. The record is stored under the service name,
  \<^verbatim>\<open>self.services[name] = service_info\<close>; \<^verbatim>\<open>start_health_monitoring\<close> sets
  \<open>is_running\<close>. The method returns \<^verbatim>\<open>True\<close>.
\<close>

definition register_service ::
  "ServiceRegistry \<Rightarrow> (string \<Rightarrow> http_result) \<Rightarrow> real \<Rightarrow> string \<Rightarrow> string
     \<Rightarrow> (string \<times> json) list option \<Rightarrow> bool \<times> ServiceRegistry"
where
  "register_service reg client now name' url0 metadata' =
     (let url' = (if \<not> (startswith url0 ''http://'' \<or> startswith url0 ''https://'')
                  then ''http://'' @ url0 else url0);
          health_url' = url' @ ''/health'';
          is_healthy' = check_service_health client health_url';
          service_info =
            \<lparr>name = name', url = url', health_url = health_url', registered_at = now,
             last_health_check = Some now, is_healthy = is_healthy', response_time = None,
             metadata = (case metadata' of None \<Rightarrow> [] | Some m \<Rightarrow> m)\<rparr>
      in (True, reg\<lparr>services := AList.update name' service_info (services reg),
                     is_running := True\<rparr>))"

text \<open>
  The \<^verbatim>\<open>ServiceInfo\<close> that \<^verbatim>\<open>register_service\<close> builds for a registration: the
  normalised URL, the health URL, the result of the probe at registration and the time
  of registration.
\<close>

definition registered_info ::
  "(string \<Rightarrow> http_result) \<Rightarrow> real \<Rightarrow> string \<Rightarrow> string \<Rightarrow> (string \<times> json) list option
     \<Rightarrow> ServiceInfo"
where
  "registered_info client now name' url0 metadata' =
     (let url' = (if \<not> (startswith url0 ''http://'' \<or> startswith url0 ''https://'')
                  then ''http://'' @ url0 else url0);
          health_url' = url' @ ''/health''
      in \<lparr>name = name', url = url', health_url = health_url', registered_at = now,
          last_health_check = Some now,
          is_healthy = check_service_health client health_url',
          response_time = None,
          metadata = (case metadata' of None \<Rightarrow> [] | Some m \<Rightarrow> m)\<rparr>)"

text \<open>\<^verbatim>\<open>ServiceRegistry.unregister_service\<close>.\<close>

definition unregister_service :: "ServiceRegistry \<Rightarrow> string \<Rightarrow> bool \<times> ServiceRegistry" where
  "unregister_service reg name' =
     (case map_of (services reg) name' of
        Some info \<Rightarrow> (True, reg\<lparr>services := AList.delete name' (services reg)\<rparr>)
      | None \<Rightarrow> (False, reg))"

text \<open>\<^verbatim>\<open>ServiceRegistry.get_service_url\<close>.\<close>

definition registry_get_service_url :: "ServiceRegistry \<Rightarrow> string \<Rightarrow> string option" where
  "registry_get_service_url reg name' =
     (case map_of (services reg) name' of
        Some info \<Rightarrow> if is_healthy info then Some (url info) else None
      | None \<Rightarrow> None)"

text \<open>
  \<^verbatim>\<open>ServiceRegistry._update_service_health\<close>, with the time \<open>elapsed\<close> that the probe
  took, and one round of \<^verbatim>\<open>_health_monitoring_loop\<close>, which probes every record
  (\<open>timer\<close> gives the time that the request to a URL takes).
\<close>

definition update_service_health ::
  "(string \<Rightarrow> http_result) \<Rightarrow> real \<Rightarrow> real \<Rightarrow> ServiceInfo \<Rightarrow> ServiceInfo" where
  "update_service_health client now elapsed service_info =
     (let is_healthy' = check_service_health client (health_url service_info)
      in service_info\<lparr>last_health_check := Some now, is_healthy := is_healthy',
                       response_time := (if is_healthy' then Some elapsed else None)\<rparr>)"

definition health_monitoring_round ::
  "ServiceRegistry \<Rightarrow> (string \<Rightarrow> http_result) \<Rightarrow> real \<Rightarrow> (string \<Rightarrow> real) \<Rightarrow> ServiceRegistry"
where
  "health_monitoring_round reg client now timer =
     reg\<lparr>services :=
       map (\<lambda>(name', service_info).
              (name', update_service_health client now (timer (health_url service_info)) service_info))
         (services reg)\<rparr>"



definition get_registered_services :: "ServiceRegistry \<Rightarrow> string list" where
  "get_registered_services reg = map fst (services reg)"

text \<open>\<^verbatim>\<open>ServiceRegistry.cleanup\<close>.\<close>

definition registry_cleanup :: "ServiceRegistry \<Rightarrow> ServiceRegistry" where
  "registry_cleanup reg = reg\<lparr>is_running := False, services := []\<rparr>"




section \<open>load\_balancer.py\<close>

datatype LoadBalancingStrategy =
    ROUND_ROBIN
  | RANDOM
  | LEAST_CONNECTIONS
  | WEIGHTED_ROUND_ROBIN
  | LEAST_RESPONSE_TIME

text \<open>
  \<^verbatim>\<open>ServiceInstance\<close>; the three fields that \<open>ServiceInfo\<close> has too carry the suffix
  \<open>_inst\<close>.
\<close>

record ServiceInstance =
  url_inst :: string
  weight :: int
  active_connections :: int
  response_time_inst :: real
  last_used :: real
  is_healthy_inst :: bool

definition ServiceInstance_init :: "string \<Rightarrow> int \<Rightarrow> ServiceInstance" where
  "ServiceInstance_init u w =
     \<lparr>url_inst = u, weight = w, active_connections = 0, response_time_inst = 0,
      last_used = 0, is_healthy_inst = True\<rparr>"

record LoadBalancer =
  strategy :: LoadBalancingStrategy
  service_instances :: "(string \<times> ServiceInstance list) list"
  round_robin_counters :: "(string \<times> int) list"

definition LoadBalancer_init :: "LoadBalancingStrategy \<Rightarrow> LoadBalancer" where
  "LoadBalancer_init s = \<lparr>strategy = s, service_instances = [], round_robin_counters = []\<rparr>"

text \<open>
  The selection methods get the list of healthy instances and return one of its objects;
  \<^verbatim>\<open>get_service_url\<close> then mutates that object, which is shared with the list stored
  in \<open>service_instances\<close>. To keep the identity of the object, a selection here returns
  the position of the chosen instance in the list it was given.

  \<^verbatim>\<open>LoadBalancer._round_robin_selection\<close>: \<^verbatim>\<open>counter % len(instances)\<close> raises
  \<^verbatim>\<open>ZeroDivisionError\<close> on an empty list; Python's \<^verbatim>\<open>%\<close> with a positive modulus
  is \<open>mod\<close> on \<open>int\<close>.
\<close>

definition round_robin_selection ::
  "(string \<times> int) list \<Rightarrow> string \<Rightarrow> 'a list \<Rightarrow> py_exception + (nat \<times> (string \<times> int) list)"
where
  "round_robin_selection counters service_name instances =
     (let counters1 = (case map_of counters service_name of
                         None \<Rightarrow> AList.update service_name 0 counters
                       | Some c \<Rightarrow> counters);
          counter = (case map_of counters1 service_name of Some c \<Rightarrow> c | None \<Rightarrow> 0)
      in if instances = [] then Inl ZeroDivisionError
         else Inr (nat (counter mod int (length instances)),
                   AList.update service_name ((counter + 1) mod int (length instances)) counters1))"

text \<open>
  \<^verbatim>\<open>random.choice(instances)\<close>: the random number is the argument \<open>rnd\<close>.
\<close>

definition random_selection :: "nat \<Rightarrow> 'a list \<Rightarrow> nat" where
  "random_selection rnd instances = rnd mod length instances"

text \<open>\<^verbatim>\<open>min(instances, key=...)\<close> returns the first of the minimal elements.\<close>

fun first_min_pos :: "('a \<Rightarrow> 'k::linorder) \<Rightarrow> 'a list \<Rightarrow> nat" where
  "first_min_pos key [] = 0"
| "first_min_pos key [x] = 0"
| "first_min_pos key (x # y # ys) =
     (let j = first_min_pos key (y # ys)
      in if key x \<le> key ((y # ys) ! j) then 0 else Suc j)"

definition least_connections_selection :: "ServiceInstance list \<Rightarrow> nat" where
  "least_connections_selection instances = first_min_pos active_connections instances"

text \<open>
  \<^verbatim>\<open>LoadBalancer._weighted_round_robin_selection\<close>: \<open>weighted_instances\<close> holds each
  position \<^verbatim>\<open>weight\<close> times (\<^verbatim>\<open>range\<close> of a number below 1 is empty).
\<close>

definition weighted_positions :: "ServiceInstance list \<Rightarrow> nat list" where
  "weighted_positions instances =
     concat (map (\<lambda>i. replicate (nat (weight (instances ! i))) i) [0..<length instances])"

definition weighted_round_robin_selection ::
  "(string \<times> int) list \<Rightarrow> string \<Rightarrow> ServiceInstance list
     \<Rightarrow> py_exception + (nat \<times> (string \<times> int) list)"
where
  "weighted_round_robin_selection counters service_name instances =
     (let weighted_instances = weighted_positions instances
      in if weighted_instances = [] then Inr (0, counters)
         else (case round_robin_selection counters service_name weighted_instances of
                 Inl e \<Rightarrow> Inl e
               | Inr (j, counters') \<Rightarrow> Inr (weighted_instances ! j, counters')))"

text \<open>\<^verbatim>\<open>LoadBalancer._least_response_time_selection\<close>.\<close>

definition least_response_time_selection :: "ServiceInstance list \<Rightarrow> nat" where
  "least_response_time_selection instances =
     (let instances_with_response_time =
            filter (\<lambda>i. response_time_inst (instances ! i) > 0) [0..<length instances]
      in if instances_with_response_time \<noteq> [] then
           instances_with_response_time !
             first_min_pos (\<lambda>i. response_time_inst (instances ! i)) instances_with_response_time
         else 0)"

text \<open>
  \<^verbatim>\<open>LoadBalancer._select_instance\<close>: \<open>None\<close> for an empty list, else the position that
  the strategy selects.
\<close>

definition select_instance ::
  "LoadBalancer \<Rightarrow> nat \<Rightarrow> string \<Rightarrow> ServiceInstance list
     \<Rightarrow> py_exception + (nat option \<times> LoadBalancer)"
where
  "select_instance lb rnd service_name instances =
     (if instances = [] then Inr (None, lb)
      else case strategy lb of
        ROUND_ROBIN \<Rightarrow>
          (case round_robin_selection (round_robin_counters lb) service_name instances of
             Inl e \<Rightarrow> Inl e
           | Inr (j, counters') \<Rightarrow> Inr (Some j, lb\<lparr>round_robin_counters := counters'\<rparr>))
      | RANDOM \<Rightarrow> Inr (Some (random_selection rnd instances), lb)
      | LEAST_CONNECTIONS \<Rightarrow> Inr (Some (least_connections_selection instances), lb)
      | WEIGHTED_ROUND_ROBIN \<Rightarrow>
          (case weighted_round_robin_selection (round_robin_counters lb) service_name instances of
             Inl e \<Rightarrow> Inl e
           | Inr (j, counters') \<Rightarrow> Inr (Some j, lb\<lparr>round_robin_counters := counters'\<rparr>))
      | LEAST_RESPONSE_TIME \<Rightarrow> Inr (Some (least_response_time_selection instances), lb))"

text \<open>
  \<^verbatim>\<open>LoadBalancer.get_service_url\<close>. \<open>healthy\<close> are the positions of the healthy
  instances in the stored list, so that the update of the selected object reaches the
  stored list. An exception inside the \<^verbatim>\<open>try\<close> is logged and answered with
  \<^verbatim>\<open>None\<close>; what had been stored before it stays.
\<close>

definition get_service_url ::
  "LoadBalancer \<Rightarrow> ServiceRegistry \<Rightarrow> real \<Rightarrow> nat \<Rightarrow> string \<Rightarrow> string option \<times> LoadBalancer"
where
  "get_service_url lb reg now rnd service_name =
     (let stored = (case map_of (service_instances lb) service_name of
                      None \<Rightarrow> [] | Some xs \<Rightarrow> xs);
          created = (if stored = [] then
                       (case registry_get_service_url reg service_name of
                          Some service_url \<Rightarrow>
                            if service_url \<noteq> [] then Some [ServiceInstance_init service_url 1]
                            else None
                        | None \<Rightarrow> None)
                     else Some stored)
      in case created of
           None \<Rightarrow> (None, lb)
         | Some instances \<Rightarrow>
             (let lb1 = (if stored = [] then
                           lb\<lparr>service_instances :=
                                AList.update service_name instances (service_instances lb)\<rparr>
                         else lb);
                  healthy = filter (\<lambda>i. is_healthy_inst (instances ! i)) [0..<length instances]
              in if healthy = [] then (None, lb1)
                 else
                   (case select_instance lb1 rnd service_name (map ((!) instances) healthy) of
                      Inl e \<Rightarrow> (None, lb1)
                    | Inr (None, lb2) \<Rightarrow> (None, lb2)
                    | Inr (Some j, lb2) \<Rightarrow>
                        (let i = healthy ! j;
                             selected_instance = instances ! i;
                             selected_instance' =
                               selected_instance\<lparr>active_connections :=
                                                    active_connections selected_instance + 1,
                                                  last_used := now\<rparr>
                         in (Some (url_inst selected_instance'),
                             lb2\<lparr>service_instances :=
                                   AList.update service_name (instances[i := selected_instance'])
                                     (service_instances lb2)\<rparr>)))))"

text \<open>\<^verbatim>\<open>LoadBalancer.add_service_instance\<close>: the new instance is appended.\<close>

definition add_service_instance ::
  "LoadBalancer \<Rightarrow> string \<Rightarrow> string \<Rightarrow> int \<Rightarrow> bool \<times> LoadBalancer" where
  "add_service_instance lb service_name u w =
     (let instance = ServiceInstance_init u w;
          stored = (case map_of (service_instances lb) service_name of
                      None \<Rightarrow> [] | Some xs \<Rightarrow> xs)
      in (True, lb\<lparr>service_instances :=
                     AList.update service_name (stored @ [instance]) (service_instances lb)\<rparr>))"

text \<open>\<^verbatim>\<open>LoadBalancer.remove_service_instance\<close>.\<close>

definition remove_service_instance ::
  "LoadBalancer \<Rightarrow> string \<Rightarrow> string \<Rightarrow> bool \<times> LoadBalancer" where
  "remove_service_instance lb service_name u =
     (case map_of (service_instances lb) service_name of
        Some xs \<Rightarrow>
          (let kept = filter (\<lambda>inst. url_inst inst \<noteq> u) xs
           in (True, lb\<lparr>service_instances :=
                          (if kept = [] then AList.delete service_name (service_instances lb)
                           else AList.update service_name kept (service_instances lb))\<rparr>))
      | None \<Rightarrow> (False, lb))"

text \<open>
  The loop of \<^verbatim>\<open>update_instance_health\<close> and \<^verbatim>\<open>update_instance_response_time\<close>:
  the first instance with the URL is changed and the method returns.
\<close>

fun update_first ::
  "string \<Rightarrow> (ServiceInstance \<Rightarrow> ServiceInstance) \<Rightarrow> ServiceInstance list
     \<Rightarrow> ServiceInstance list option"
where
  "update_first u f [] = None"
| "update_first u f (instance # rest) =
     (if url_inst instance = u then Some (f instance # rest)
      else map_option ((#) instance) (update_first u f rest))"

definition update_instance_health ::
  "LoadBalancer \<Rightarrow> string \<Rightarrow> string \<Rightarrow> bool \<Rightarrow> bool \<times> LoadBalancer" where
  "update_instance_health lb service_name u h =
     (case map_of (service_instances lb) service_name of
        Some xs \<Rightarrow>
          (case update_first u (\<lambda>inst. inst\<lparr>is_healthy_inst := h\<rparr>) xs of
             Some xs' \<Rightarrow>
               (True, lb\<lparr>service_instances :=
                          AList.update service_name xs' (service_instances lb)\<rparr>)
           | None \<Rightarrow> (False, lb))
      | None \<Rightarrow> (False, lb))"

definition update_instance_response_time ::
  "LoadBalancer \<Rightarrow> string \<Rightarrow> string \<Rightarrow> real \<Rightarrow> bool \<times> LoadBalancer" where
  "update_instance_response_time lb service_name u rt =
     (case map_of (service_instances lb) service_name of
        Some xs \<Rightarrow>
          (case update_first u (\<lambda>inst. inst\<lparr>response_time_inst := rt\<rparr>) xs of
             Some xs' \<Rightarrow>
               (True, lb\<lparr>service_instances :=
                          AList.update service_name xs' (service_instances lb)\<rparr>)
           | None \<Rightarrow> (False, lb))
      | None \<Rightarrow> (False, lb))"

text \<open>\<^verbatim>\<open>LoadBalancer.set_strategy\<close> and \<^verbatim>\<open>LoadBalancer.cleanup\<close>.\<close>

definition set_strategy :: "LoadBalancer \<Rightarrow> LoadBalancingStrategy \<Rightarrow> LoadBalancer" where
  "set_strategy lb s = lb\<lparr>strategy := s\<rparr>"

definition lb_cleanup :: "LoadBalancer \<Rightarrow> LoadBalancer" where
  "lb_cleanup lb = lb\<lparr>service_instances := [], round_robin_counters := []\<rparr>"

text \<open>
  Consecutive resolutions of one service, each with the clock and the random number of
  its moment; nothing else touches the balancer or the registry in between.
\<close>

fun resolutions ::
  "LoadBalancer \<Rightarrow> ServiceRegistry \<Rightarrow> string \<Rightarrow> (real \<times> nat) list
     \<Rightarrow> string option list \<times> LoadBalancer"
where
  "resolutions lb reg service_name [] = ([], lb)"
| "resolutions lb reg service_name ((now, rnd) # es) =
     (case get_service_url lb reg now rnd service_name of
        (r, lb') \<Rightarrow>
          (case resolutions lb' reg service_name es of (rs, lb'') \<Rightarrow> (r # rs, lb'')))"

section \<open>main.py: the unary proxy\<close>

text \<open>The request; \<^verbatim>\<open>request.method\<close> is the field \<open>method_req\<close>.\<close>

record Request =
  method_req :: string
  query_params :: string
  headers :: "(string \<times> string) list"
  body :: string

text \<open>
  The response of the backend: \<open>json_of\<close> is the result of \<^verbatim>\<open>response.json()\<close>,
  \<open>None\<close> when the call raises.
\<close>

record UpstreamResponse =
  status_code :: int
  response_headers :: "(string \<times> string) list"
  json_of :: "json option"
  text_of :: string

datatype content = JsonContent json | TextContent string

record JSONResponse =
  content_out :: content
  status_code_out :: int
  headers_out :: "(string \<times> string) list"

text \<open>
  \<^verbatim>\<open>http_client.request(method, url, headers, content)\<close>: an argument of the model,
  which answers with a response or raises.
\<close>

type_synonym http_client =
  "string \<Rightarrow> string \<Rightarrow> (string \<times> string) list \<Rightarrow> string option
     \<Rightarrow> py_exception + UpstreamResponse"

text \<open>
  The \<^verbatim>\<open>try\<close> block of \<^verbatim>\<open>proxy_request\<close>: \<open>Inl\<close> is the exception that leaves the
  block. The \<^verbatim>\<open>raise HTTPException(status_code=503, ...)\<close> for a service without a
  URL stands inside the block.
\<close>

definition proxy_request_try ::
  "string option \<Rightarrow> http_client \<Rightarrow> string \<Rightarrow> Request \<Rightarrow> string \<Rightarrow> py_exception + JSONResponse"
where
  "proxy_request_try service_url http service_name request path =
     (case service_url of
        None \<Rightarrow> Inl (HTTPException 503 (''Service '' @ service_name @ '' not available''))
      | Some u \<Rightarrow>
          if u = [] then
            Inl (HTTPException 503 (''Service '' @ service_name @ '' not available''))
          else
            (let target_url = u @ ''/'' @ path @
                   (if query_params request \<noteq> [] then ''?'' @ query_params request else []);
                 headers' = AList.delete ''host'' (headers request);
                 body' = (if method_req request \<in> {''POST'', ''PUT'', ''PATCH''}
                          then Some (body request) else None)
             in case http (method_req request) target_url headers' body' of
                  Inl e \<Rightarrow> Inl e
                | Inr response \<Rightarrow>
                    if startswith
                         (case map_of (response_headers response) ''content-type'' of
                            None \<Rightarrow> [] | Some ct \<Rightarrow> ct)
                         ''application/json''
                    then (case json_of response of
                            None \<Rightarrow> Inl OtherException
                          | Some j \<Rightarrow>
                              Inr \<lparr>content_out = JsonContent j,
                                   status_code_out = status_code response,
                                   headers_out = response_headers response\<rparr>)
                    else Inr \<lparr>content_out = TextContent (text_of response),
                              status_code_out = status_code response,
                              headers_out = response_headers response\<rparr>))"

text \<open>
  \<^verbatim>\<open>proxy_request\<close>: the guard before the \<^verbatim>\<open>try\<close>, the block, and its handlers in the
  order of the source: \<^verbatim>\<open>httpx.TimeoutException\<close>, \<^verbatim>\<open>httpx.ConnectError\<close>, then
  \<^verbatim>\<open>Exception\<close>, which is a base class of \<^verbatim>\<open>HTTPException\<close> too. \<open>Inl\<close> of the
  result is the \<^verbatim>\<open>HTTPException\<close> that the framework turns into the response of the
  client. \<open>initialized\<close> says that the registry and the HTTP client exist.
\<close>

definition proxy_request ::
  "bool \<Rightarrow> LoadBalancer \<Rightarrow> ServiceRegistry \<Rightarrow> http_client \<Rightarrow> real \<Rightarrow> nat \<Rightarrow> string \<Rightarrow> Request
     \<Rightarrow> string \<Rightarrow> (py_exception + JSONResponse) \<times> LoadBalancer"
where
  "proxy_request initialized lb reg http now rnd service_name request path =
     (if \<not> initialized then
        (Inl (HTTPException 503 ''Service registry or HTTP client not initialized''), lb)
      else
        (case get_service_url lb reg now rnd service_name of
           (service_url, lb') \<Rightarrow>
             (case proxy_request_try service_url http service_name request path of
                Inr r \<Rightarrow> (Inr r, lb')
              | Inl TimeoutException \<Rightarrow> (Inl (HTTPException 504 ''Service timeout''), lb')
              | Inl ConnectError \<Rightarrow> (Inl (HTTPException 503 ''Service unavailable''), lb')
              | Inl e \<Rightarrow> (Inl (HTTPException 500 ''Internal server error''), lb'))))"

text \<open>The status that the client sees.\<close>

definition client_status :: "py_exception + JSONResponse \<Rightarrow> int option" where
  "client_status r =
     (case r of
        Inr resp \<Rightarrow> Some (status_code_out resp)
      | Inl (HTTPException code detail) \<Rightarrow> Some code
      | Inl e \<Rightarrow> None)"

section \<open>The state of the gateway and its operations\<close>

record gateway =
  registry :: ServiceRegistry
  balancer :: LoadBalancer

definition gateway_init :: gateway where
  "gateway_init = \<lparr>registry = ServiceRegistry_init, balancer = LoadBalancer_init ROUND_ROBIN\<rparr>"

datatype gateway_op =
    Register "string \<Rightarrow> http_result" real string string "(string \<times> json) list option"
  | Unregister string
  | HealthRound "string \<Rightarrow> http_result" real "string \<Rightarrow> real"
  | RegistryCleanup
  | Resolve real nat string
  | AddInstance string string int
  | RemoveInstance string string
  | UpdateHealth string string bool
  | UpdateResponseTime string string real
  | SetStrategy LoadBalancingStrategy
  | BalancerCleanup

fun apply_op :: "gateway \<Rightarrow> gateway_op \<Rightarrow> gateway" where
  "apply_op g (Register client now n u m) =
     g\<lparr>registry := snd (register_service (registry g) client now n u m)\<rparr>"
| "apply_op g (Unregister n) = g\<lparr>registry := snd (unregister_service (registry g) n)\<rparr>"
| "apply_op g (HealthRound client now timer) =
     g\<lparr>registry := health_monitoring_round (registry g) client now timer\<rparr>"
| "apply_op g RegistryCleanup = g\<lparr>registry := registry_cleanup (registry g)\<rparr>"
| "apply_op g (Resolve now rnd n) =
     g\<lparr>balancer := snd (get_service_url (balancer g) (registry g) now rnd n)\<rparr>"
| "apply_op g (AddInstance n u w) =
     g\<lparr>balancer := snd (add_service_instance (balancer g) n u w)\<rparr>"
| "apply_op g (RemoveInstance n u) =
     g\<lparr>balancer := snd (remove_service_instance (balancer g) n u)\<rparr>"
| "apply_op g (UpdateHealth n u h) =
     g\<lparr>balancer := snd (update_instance_health (balancer g) n u h)\<rparr>"
| "apply_op g (UpdateResponseTime n u rt) =
     g\<lparr>balancer := snd (update_instance_response_time (balancer g) n u rt)\<rparr>"
| "apply_op g (SetStrategy s) = g\<lparr>balancer := set_strategy (balancer g) s\<rparr>"
| "apply_op g BalancerCleanup = g\<lparr>balancer := lb_cleanup (balancer g)\<rparr>"

text \<open>
  The addresses stored under a service name, and the operations that do not add an
  address a second time under its name.
\<close>

definition addresses_of :: "gateway \<Rightarrow> string \<Rightarrow> string list" where
  "addresses_of g n =
     (case map_of (service_instances (balancer g)) n of
        None \<Rightarrow> [] | Some xs \<Rightarrow> map url_inst xs)"

fun adds_new_address :: "gateway \<Rightarrow> gateway_op \<Rightarrow> bool" where
  "adds_new_address g (AddInstance n u w) = (u \<notin> set (addresses_of g n))"
| "adds_new_address g otherop = True"

text \<open>
  The states that the gateway reaches by its operations, and those among them that it
  reaches without adding an address a second time under its name.
\<close>

inductive reachable :: "gateway \<Rightarrow> bool" where
  init: "reachable gateway_init"
| step: "reachable g \<Longrightarrow> reachable (apply_op g op)"

inductive reachable_new_addresses :: "gateway \<Rightarrow> bool" where
  init: "reachable_new_addresses gateway_init"
| step: "reachable_new_addresses g \<Longrightarrow> adds_new_address g op \<Longrightarrow>
         reachable_new_addresses (apply_op g op)"

definition unique_records :: "gateway \<Rightarrow> bool" where
  "unique_records g =
     (distinct (map fst (services (registry g))) \<and>
      distinct (map fst (service_instances (balancer g))))"

text \<open>The same two properties on the dictionary of the balancer alone.\<close>

definition instances_ok :: "(string \<times> ServiceInstance list) list \<Rightarrow> bool" where
  "instances_ok d = (distinct (map fst d) \<and> (\<forall>(n, xs) \<in> set d. distinct (map url_inst xs)))"

definition unique_addresses :: "gateway \<Rightarrow> bool" where
  "unique_addresses g =
     (\<forall>(n, xs) \<in> set (service_instances (balancer g)). distinct (map url_inst xs))"

section \<open>Rate limiter: the sliding window, the burst guard and the block\<close>

lemma popleft_old_id: "ts = [] \<or> t - hd ts \<le> real_of_int w \<Longrightarrow> popleft_old t w ts = ts"
  by (cases ts) auto

lemma popleft_old_suffix: "suffix (popleft_old t w ts) ts"
  by (induction ts) (auto intro: suffix_ConsI)

lemma length_popleft_old: "length (popleft_old t w ts) \<le> length ts"
  by (induction ts) auto

lemma request_times_of_requests_update:
  "request_times_of (rl\<lparr>requests := AList.update c ts (requests rl)\<rparr>) c' =
     (if c' = c then ts else request_times_of rl c')"
  by (simp add: request_times_of_def update_conv')

lemma request_times_of_blocked_update:
  "request_times_of (rl\<lparr>blocked_ips := b\<rparr>) c = request_times_of rl c"
  by (simp add: request_times_of_def)

text \<open>The call of a client without a block entry.\<close>

lemma is_allowed_unblocked:
  assumes "map_of (blocked_ips rl) c = None"
  shows "is_allowed rl c t =
     (let h = popleft_old t (window_size (config rl)) (request_times_of rl c)
      in if requests_per_minute (config rl) \<le> int (length h) then
           (False, rl\<lparr>requests := AList.update c h (requests rl),
                      blocked_ips := AList.update c (t + real_of_int (block_duration rl)) (blocked_ips rl)\<rparr>)
         else if burst_limit (config rl) \<le> int (length (filter (\<lambda>r. t - r < 10) h)) then
           (False, rl\<lparr>requests := AList.update c h (requests rl)\<rparr>)
         else (True, rl\<lparr>requests := AList.update c (h @ [t]) (requests rl)\<rparr>))"
  using assms by (simp add: is_allowed_def Let_def)

lemma is_allowed_blocked:
  assumes "map_of (blocked_ips rl) c = Some b" "t < b"
  shows "is_allowed rl c t = (False, rl)"
  using assms by (simp add: is_allowed_def)

lemma is_allowed_expired:
  assumes "map_of (blocked_ips rl) c = Some b" "b \<le> t"
  shows "is_allowed rl c t = is_allowed (rl\<lparr>blocked_ips := AList.delete c (blocked_ips rl)\<rparr>) c t"
  using assms by (simp add: is_allowed_def Let_def delete_conv' request_times_of_blocked_update)

lemma calls_append:
  "calls rl c (xs @ ys) =
     (case calls rl c xs of (r1, rl1) \<Rightarrow>
        (case calls rl1 c ys of (r2, rl2) \<Rightarrow> (r1 @ r2, rl2)))"
  by (induction xs arbitrary: rl) (auto split: prod.splits)

lemma calls_blocked:
  assumes "map_of (blocked_ips rl) c = Some b" "\<forall>t \<in> set ts. t < b"
  shows "calls rl c ts = (replicate (length ts) False, rl)"
  using assms by (induction ts) (auto simp: is_allowed_blocked)

lemma calls_fresh:
  assumes "map_of (blocked_ips rl) c = None" and "request_times_of rl c = []"
    and "sorted ts" and "ts \<noteq> [] \<longrightarrow> last ts - hd ts \<le> real_of_int (window_size (config rl))"
    and "int (length ts) \<le> requests_per_minute (config rl)"
    and "int (length ts) \<le> burst_limit (config rl)"
  shows "fst (calls rl c ts) = replicate (length ts) True \<and>
         request_times_of (snd (calls rl c ts)) c = ts \<and>
         blocked_ips (snd (calls rl c ts)) = blocked_ips rl \<and>
         config (snd (calls rl c ts)) = config rl \<and>
         block_duration (snd (calls rl c ts)) = block_duration rl"
  using assms(3-6)
proof (induction ts rule: rev_induct)
  case Nil
  then show ?case using assms(2) by simp
next
  case (snoc t ts)
  let ?w = "window_size (config rl)"
  obtain rs rl1 where c1: "calls rl c ts = (rs, rl1)" by (cases "calls rl c ts")
  have srt: "sorted ts" using snoc.prems(1) by (simp add: sorted_append)
  have le_t: "\<forall>x \<in> set ts. x \<le> t" using snoc.prems(1) by (simp add: sorted_append)
  have win: "ts \<noteq> [] \<longrightarrow> last ts - hd ts \<le> real_of_int ?w"
  proof
    assume ne: "ts \<noteq> []"
    then have "last ts \<le> t" using le_t by simp
    moreover have "t - hd ts \<le> real_of_int ?w" using snoc.prems(2) ne by simp
    ultimately show "last ts - hd ts \<le> real_of_int ?w" by linarith
  qed
  have ih: "rs = replicate (length ts) True \<and> request_times_of rl1 c = ts \<and>
            blocked_ips rl1 = blocked_ips rl \<and> config rl1 = config rl \<and>
            block_duration rl1 = block_duration rl"
    using snoc.IH [OF srt win] snoc.prems(3,4) c1 by simp
  have keep: "popleft_old t ?w ts = ts"
    using snoc.prems(2) by (intro popleft_old_id) (cases ts, auto)
  have len: "int (length ts) < requests_per_minute (config rl)" using snoc.prems(3) by simp
  have fl: "int (length (filter (\<lambda>r. t - r < 10) ts)) \<le> int (length ts)"
    using length_filter_le [of "\<lambda>r. t - r < 10" ts] by linarith
  have "int (length ts) + 1 \<le> burst_limit (config rl)" using snoc.prems(4) by simp
  with fl have burst: "int (length (filter (\<lambda>r. t - r < 10) ts)) < burst_limit (config rl)"
    by linarith
  have nb: "map_of (blocked_ips rl1) c = None" using ih assms(1) by simp
  have call: "is_allowed rl1 c t = (True, rl1\<lparr>requests := AList.update c (ts @ [t]) (requests rl1)\<rparr>)"
    using len burst keep ih by (simp add: is_allowed_unblocked [OF nb] Let_def)
  show ?case
    using c1 call ih
    by (simp add: calls_append request_times_of_requests_update replicate_append_same)
qed


lemma burst_after_window:
  assumes "ts \<noteq> []" and "10 \<le> t - hd ts"
  shows "length (filter (\<lambda>r. t - r < 10) (popleft_old t w ts)) < length ts"
proof (cases ts)
  case Nil
  then show ?thesis using assms by simp
next
  case (Cons a as)
  show ?thesis
  proof (cases "real_of_int w < t - a")
    case True
    have "length (filter (\<lambda>r. t - r < 10) (popleft_old t w as)) \<le> length (popleft_old t w as)"
      by (rule length_filter_le)
    also have "\<dots> \<le> length as" by (rule length_popleft_old)
    finally show ?thesis using Cons True by (simp add: less_Suc_eq_le)
  next
    case False
    then show ?thesis using Cons assms(2) by (simp add: less_Suc_eq_le)
  qed
qed

text \<open>
  Claim C3. With \<open>requests_per_minute = 5\<close> and an empty limiter, five calls of a client
  at the times \<open>ts\<close> are allowed; the sixth, at \<open>t6\<close> with all six calls inside the
  window of 60 seconds, is rejected and sets the block to \<open>t6 + 300\<close>; every later call
  at a time before \<open>t6 + 300\<close> is rejected and leaves the block as it is, also at times
  more than 60 seconds after the five calls.
\<close>

theorem limit_reached_blocks_client:
  assumes "length ts = 5" and "sorted (ts @ [t6])" and "t6 - hd ts \<le> 60"
    and "\<forall>t \<in> set later. t < t6 + 300"
  shows "fst (calls (RateLimiter_init 5) x (ts @ t6 # later)) =
           replicate 5 True @ False # replicate (length later) False \<and>
         map_of (blocked_ips (snd (calls (RateLimiter_init 5) x (ts @ [t6])))) x = Some (t6 + 300) \<and>
         map_of (blocked_ips (snd (calls (RateLimiter_init 5) x (ts @ t6 # later)))) x = Some (t6 + 300)"
proof -
  let ?rl = "RateLimiter_init 5"
  obtain r1 rl1 where c1: "calls ?rl x ts = (r1, rl1)" by (cases "calls ?rl x ts")
  have ne: "ts \<noteq> []" using assms(1) by auto
  have srt: "sorted ts" and le6: "\<forall>y \<in> set ts. y \<le> t6"
    using assms(2) by (simp_all add: sorted_append)
  have "last ts \<le> t6" using le6 ne by simp
  then have win: "ts \<noteq> [] \<longrightarrow> last ts - hd ts \<le> real_of_int (window_size (config ?rl))"
    using assms(3) by (simp add: RateLimiter_init_def)
  have fresh: "fst (calls ?rl x ts) = replicate (length ts) True \<and>
         request_times_of (snd (calls ?rl x ts)) x = ts \<and>
         blocked_ips (snd (calls ?rl x ts)) = blocked_ips ?rl \<and>
         config (snd (calls ?rl x ts)) = config ?rl \<and>
         block_duration (snd (calls ?rl x ts)) = block_duration ?rl"
    using assms(1) by (intro calls_fresh srt win) (simp_all add: RateLimiter_init_def request_times_of_def)
  then have s1: "r1 = replicate 5 True" "request_times_of rl1 x = ts" "blocked_ips rl1 = []"
      "config rl1 = \<lparr>requests_per_minute = 5, burst_limit = 10, window_size = 60\<rparr>"
      "block_duration rl1 = 300"
    using c1 assms(1) by (simp_all add: RateLimiter_init_def)
  have keep: "popleft_old t6 60 ts = ts"
    using assms(3) ne by (intro popleft_old_id) simp
  define rl2 where "rl2 = rl1\<lparr>requests := AList.update x ts (requests rl1),
                              blocked_ips := AList.update x (t6 + 300) (blocked_ips rl1)\<rparr>"
  have call6: "is_allowed rl1 x t6 = (False, rl2)"
    using s1 keep assms(1) by (simp add: is_allowed_unblocked Let_def rl2_def)
  have b2: "map_of (blocked_ips rl2) x = Some (t6 + 300)"
    by (simp add: rl2_def s1)
  have rest: "calls rl2 x later = (replicate (length later) False, rl2)"
    using b2 assms(4) by (rule calls_blocked)
  show ?thesis
    using c1 s1(1) call6 rest b2 by (simp add: calls_append)
qed

theorem limit_reached_blocks_client_witness:
  "length [0, 1, 2, 3, 4 :: real] = 5 \<and> sorted ([0, 1, 2, 3, 4] @ [5 :: real]) \<and>
   (5 :: real) - hd [0, 1, 2, 3, 4] \<le> 60 \<and> (100 :: real) < 5 + 300 \<and> (304 :: real) < 5 + 300 \<and>
   fst (calls (RateLimiter_init 5) ''x'' [0, 1, 2, 3, 4, 5, 100, 304]) =
     [True, True, True, True, True, False, False, False]"
  using limit_reached_blocks_client [of "[0, 1, 2, 3, 4]" 5 "[100, 304]" "''x''"] by (simp add: eval_nat_numeral)

text \<open>
  Claim C6. With \<open>burst_limit = 10\<close> and a limit per minute above 10, ten calls of a
  client at the times \<open>ts\<close> are allowed and an eleventh call less than 10 seconds after
  the first is rejected; the rejection leaves \<open>blocked_ips\<close> as it was, without an entry
  for the client, and a call at any time 10 seconds or more after the first call is
  allowed.
\<close>

theorem burst_rejected_without_block:
  assumes "10 < rpm" and "length ts = 10" and "sorted (ts @ [t11])" and "t11 - hd ts < 10"
  shows "fst (calls (RateLimiter_init rpm) x (ts @ [t11])) = replicate 10 True @ [False] \<and>
         blocked_ips (snd (calls (RateLimiter_init rpm) x (ts @ [t11]))) =
           blocked_ips (RateLimiter_init rpm) \<and>
         map_of (blocked_ips (snd (calls (RateLimiter_init rpm) x (ts @ [t11])))) x = None \<and>
         (\<forall>t12. 10 \<le> t12 - hd ts \<longrightarrow>
            fst (is_allowed (snd (calls (RateLimiter_init rpm) x (ts @ [t11]))) x t12))"
proof -
  let ?rl = "RateLimiter_init rpm"
  obtain r1 rl1 where c1: "calls ?rl x ts = (r1, rl1)" by (cases "calls ?rl x ts")
  have ne: "ts \<noteq> []" using assms(2) by auto
  have srt: "sorted ts" and le11: "\<forall>y \<in> set ts. y \<le> t11"
    using assms(3) by (simp_all add: sorted_append)
  have "last ts \<le> t11" using le11 ne by simp
  then have win: "ts \<noteq> [] \<longrightarrow> last ts - hd ts \<le> real_of_int (window_size (config ?rl))"
    using assms(4) by (simp add: RateLimiter_init_def)
  have fresh: "fst (calls ?rl x ts) = replicate (length ts) True \<and>
         request_times_of (snd (calls ?rl x ts)) x = ts \<and>
         blocked_ips (snd (calls ?rl x ts)) = blocked_ips ?rl \<and>
         config (snd (calls ?rl x ts)) = config ?rl \<and>
         block_duration (snd (calls ?rl x ts)) = block_duration ?rl"
    using assms(1,2) by (intro calls_fresh srt win) (simp_all add: RateLimiter_init_def request_times_of_def)
  then have s1: "r1 = replicate 10 True" "request_times_of rl1 x = ts" "blocked_ips rl1 = []"
      "config rl1 = \<lparr>requests_per_minute = rpm, burst_limit = 10, window_size = 60\<rparr>"
    using c1 assms(2) by (simp_all add: RateLimiter_init_def)
  have keep: "popleft_old t11 60 ts = ts"
    using assms(4) ne by (intro popleft_old_id) simp
  have "\<forall>y \<in> set ts. t11 - y < 10"
  proof
    fix y assume "y \<in> set ts"
    moreover have "\<forall>y \<in> set ts. hd ts \<le> y" using srt ne by (cases ts) auto
    ultimately have "hd ts \<le> y" by blast
    then show "t11 - y < 10" using assms(4) by linarith
  qed
  then have recent: "filter (\<lambda>r. t11 - r < 10) ts = ts" by simp
  define rl2 where "rl2 = rl1\<lparr>requests := AList.update x ts (requests rl1)\<rparr>"
  have call11: "is_allowed rl1 x t11 = (False, rl2)"
    using s1 keep recent assms(1,2) by (simp add: is_allowed_unblocked Let_def rl2_def)
  have s2: "request_times_of rl2 x = ts" "blocked_ips rl2 = []"
      "config rl2 = \<lparr>requests_per_minute = rpm, burst_limit = 10, window_size = 60\<rparr>"
    using s1 by (simp_all add: rl2_def request_times_of_requests_update)
  have final: "calls ?rl x (ts @ [t11]) = (r1 @ [False], rl2)"
    using c1 call11 by (simp add: calls_append)
  have later: "fst (is_allowed rl2 x t12)" if far: "10 \<le> t12 - hd ts" for t12
  proof -
    let ?h = "popleft_old t12 60 ts"
    have "length ?h \<le> 10" using length_popleft_old [of t12 60 ts] assms(2) by simp
    then have l: "\<not> rpm \<le> int (length ?h)" using assms(1) by simp
    have "length (filter (\<lambda>r. t12 - r < 10) ?h) < 10"
      using burst_after_window [OF ne far, of 60] assms(2) by simp
    then have b: "\<not> 10 \<le> int (length (filter (\<lambda>r. t12 - r < 10) ?h))" by simp
    show ?thesis using s2 l b by (simp add: is_allowed_unblocked Let_def)
  qed
  show ?thesis
    using final s1(1) s2(2) later by (simp add: RateLimiter_init_def)
qed

theorem burst_rejected_without_block_witness:
  "(10 :: int) < 100 \<and> length [0, 1, 2, 3, 4, 5, 6, 7, 8, 9 :: real] = 10 \<and>
   sorted ([0, 1, 2, 3, 4, 5, 6, 7, 8, 9] @ [9.5 :: real]) \<and>
   (9.5 :: real) - hd [0, 1, 2, 3, 4, 5, 6, 7, 8, 9] < 10 \<and>
   fst (calls (RateLimiter_init 100) ''x'' [0, 1, 2, 3, 4, 5, 6, 7, 8, 9, 9.5]) =
     [True, True, True, True, True, True, True, True, True, True, False] \<and>
   blocked_ips (snd (calls (RateLimiter_init 100) ''x'' [0, 1, 2, 3, 4, 5, 6, 7, 8, 9, 9.5])) = [] \<and>
   fst (is_allowed (snd (calls (RateLimiter_init 100) ''x'' [0, 1, 2, 3, 4, 5, 6, 7, 8, 9, 9.5]))
          ''x'' 10)"
  using burst_rejected_without_block [of 100 "[0, 1, 2, 3, 4, 5, 6, 7, 8, 9]" "9.5" "''x''"]
  by (simp add: RateLimiter_init_def eval_nat_numeral)

text \<open>
  Claim C9, as it is stated, at an input where it fails. The claim lets a rejecting call
  of \<open>is_allowed\<close> only evict old timestamps or set the block entry. Here a client is
  blocked until 305 by its sixth call, \<open>update_config\<close> then sets the limits 100 and 0,
  and the call at 305 is rejected by the burst check after it has removed the expired
  block entry: the rejecting call has deleted a block entry and set none.
\<close>

theorem rejected_call_removes_expired_block:
  "\<not> fst (is_allowed
            (update_config (snd (calls (RateLimiter_init 5) ''x'' [0, 1, 2, 3, 4, 5])) 100 (Some 0) None)
            ''x'' 305) \<and>
   blocked_ips (update_config (snd (calls (RateLimiter_init 5) ''x'' [0, 1, 2, 3, 4, 5])) 100 (Some 0) None)
     = [(''x'', 305)] \<and>
   blocked_ips (snd (is_allowed
            (update_config (snd (calls (RateLimiter_init 5) ''x'' [0, 1, 2, 3, 4, 5])) 100 (Some 0) None)
            ''x'' 305)) = []"
  by (simp add: is_allowed_def update_config_def RateLimiter_init_def request_times_of_def)

text \<open>
  Claim C9, amended. For every limiter state, client and time: a call of \<open>is_allowed\<close>
  that allows the request appends exactly the current time to the history of the client,
  after the eviction of the old timestamps at its front. A call that rejects appends
  nothing: the history of the client is left as it was or only loses old timestamps at
  its front, and the block map is left as it was, or loses the expired entry of the
  client, or gets the new entry \<open>t + block_duration\<close> for the client. Histories and
  block entries of other clients are not touched.
\<close>

theorem rejected_call_appends_nothing:
  "(fst (is_allowed rl c t) \<longrightarrow>
      request_times_of (snd (is_allowed rl c t)) c =
        popleft_old t (window_size (config rl)) (request_times_of rl c) @ [t]) \<and>
   (\<not> fst (is_allowed rl c t) \<longrightarrow>
      (request_times_of (snd (is_allowed rl c t)) c = request_times_of rl c \<or>
       request_times_of (snd (is_allowed rl c t)) c =
         popleft_old t (window_size (config rl)) (request_times_of rl c)) \<and>
      suffix (request_times_of (snd (is_allowed rl c t)) c) (request_times_of rl c) \<and>
      (blocked_ips (snd (is_allowed rl c t)) = blocked_ips rl \<or>
       blocked_ips (snd (is_allowed rl c t)) = AList.delete c (blocked_ips rl) \<or>
       blocked_ips (snd (is_allowed rl c t)) =
         AList.update c (t + real_of_int (block_duration rl)) (blocked_ips rl) \<or>
       blocked_ips (snd (is_allowed rl c t)) =
         AList.update c (t + real_of_int (block_duration rl)) (AList.delete c (blocked_ips rl)))) \<and>
   (\<forall>c'. c' \<noteq> c \<longrightarrow>
      request_times_of (snd (is_allowed rl c t)) c' = request_times_of rl c' \<and>
      map_of (blocked_ips (snd (is_allowed rl c t))) c' = map_of (blocked_ips rl) c')"
proof -
  let ?h = "popleft_old t (window_size (config rl)) (request_times_of rl c)"
  have suf: "suffix ?h (request_times_of rl c)" by (rule popleft_old_suffix)
  show ?thesis
  proof (cases "map_of (blocked_ips rl) c")
    case None
    then show ?thesis
      using suf
      by (simp add: is_allowed_unblocked Let_def request_times_of_requests_update
            request_times_of_blocked_update update_conv')
  next
    case (Some b)
    show ?thesis
    proof (cases "t < b")
      case True
      then show ?thesis using Some by (simp add: is_allowed_blocked)
    next
      case False
      let ?rl0 = "rl\<lparr>blocked_ips := AList.delete c (blocked_ips rl)\<rparr>"
      have e: "is_allowed rl c t = is_allowed ?rl0 c t"
        by (rule is_allowed_expired [OF Some]) (use False in simp)
      have n: "map_of (blocked_ips ?rl0) c = None" by (simp add: delete_conv')
      show ?thesis
        unfolding e using suf
        by (simp add: is_allowed_unblocked [OF n] Let_def request_times_of_def
              update_conv' delete_conv')
    qed
  qed
qed

theorem rejected_call_appends_nothing_witness:
  "fst (is_allowed (RateLimiter_init 2) ''x'' 0) \<and>
   request_times_of (snd (is_allowed (RateLimiter_init 2) ''x'' 0)) ''x'' = [0] \<and>
   \<not> fst (is_allowed ((RateLimiter_init 2)\<lparr>requests := [(''x'', [0, 70, 80])]\<rparr>) ''x'' 100) \<and>
   suffix
     (request_times_of
        (snd (is_allowed ((RateLimiter_init 2)\<lparr>requests := [(''x'', [0, 70, 80])]\<rparr>) ''x'' 100)) ''x'')
     [0, 70, 80]"
proof -
  let ?s = "(RateLimiter_init 2)\<lparr>requests := [(''x'', [0, 70, 80])]\<rparr>"
  have a: "fst (is_allowed (RateLimiter_init 2) ''x'' 0)"
    by (simp add: is_allowed_def RateLimiter_init_def request_times_of_def)
  have b: "\<not> fst (is_allowed ?s ''x'' 100)"
    by (simp add: is_allowed_def RateLimiter_init_def request_times_of_def)
  have "request_times_of (snd (is_allowed (RateLimiter_init 2) ''x'' 0)) ''x'' =
          popleft_old 0 (window_size (config (RateLimiter_init 2)))
            (request_times_of (RateLimiter_init 2) ''x'') @ [0]"
    using a rejected_call_appends_nothing [of "RateLimiter_init 2" "''x''" 0] by blast
  then have c: "request_times_of (snd (is_allowed (RateLimiter_init 2) ''x'' 0)) ''x'' = [0]"
    by (simp add: RateLimiter_init_def request_times_of_def)
  have "suffix (request_times_of (snd (is_allowed ?s ''x'' 100)) ''x'') (request_times_of ?s ''x'')"
    using b rejected_call_appends_nothing [of ?s "''x''" 100] by blast
  then have d: "suffix (request_times_of (snd (is_allowed ?s ''x'' 100)) ''x'') [0, 70, 80]"
    by (simp add: request_times_of_def)
  show ?thesis using a b c d by simp
qed

text \<open>
  Claim C10. For a client whose stored block time is not in the future (\<open>b \<le> t\<close>), the
  next call of \<open>is_allowed\<close> behaves as on the state without the block entry: the entry is
  removed and the sliding window and burst checks decide; \<open>is_blocked\<close> removes the entry
  as well and answers \<open>False\<close>. So when the evicted history is below both limits, the
  call is allowed and the client has no block entry afterwards.
\<close>

theorem expired_block_removed_by_next_call:
  assumes "map_of (blocked_ips rl) c = Some b" and "b \<le> t"
  shows "is_allowed rl c t = is_allowed (rl\<lparr>blocked_ips := AList.delete c (blocked_ips rl)\<rparr>) c t \<and>
         is_blocked rl c t = (False, rl\<lparr>blocked_ips := AList.delete c (blocked_ips rl)\<rparr>) \<and>
         map_of (blocked_ips (snd (is_blocked rl c t))) c = None \<and>
         (int (length (popleft_old t (window_size (config rl)) (request_times_of rl c)))
            < requests_per_minute (config rl) \<and>
          int (length (filter (\<lambda>r. t - r < 10)
                 (popleft_old t (window_size (config rl)) (request_times_of rl c))))
            < burst_limit (config rl)
          \<longrightarrow> fst (is_allowed rl c t) \<and>
              map_of (blocked_ips (snd (is_allowed rl c t))) c = None)"
proof -
  let ?rl0 = "rl\<lparr>blocked_ips := AList.delete c (blocked_ips rl)\<rparr>"
  have e: "is_allowed rl c t = is_allowed ?rl0 c t"
    using assms by (rule is_allowed_expired)
  have n: "map_of (blocked_ips ?rl0) c = None" by (simp add: delete_conv')
  have b: "is_blocked rl c t = (False, ?rl0)"
    using assms by (simp add: is_blocked_def)
  show ?thesis
    unfolding e b using n
    by (simp add: is_allowed_unblocked [OF n] Let_def request_times_of_blocked_update)
qed

theorem expired_block_removed_by_next_call_witness:
  "map_of (blocked_ips ((RateLimiter_init 5)\<lparr>blocked_ips := [(''x'', 300)]\<rparr>)) ''x'' = Some 300 \<and>
   (300 :: real) \<le> 300 \<and>
   fst (is_allowed ((RateLimiter_init 5)\<lparr>blocked_ips := [(''x'', 300)]\<rparr>) ''x'' 300) \<and>
   blocked_ips (snd (is_allowed ((RateLimiter_init 5)\<lparr>blocked_ips := [(''x'', 300)]\<rparr>) ''x'' 300)) = [] \<and>
   is_blocked ((RateLimiter_init 5)\<lparr>blocked_ips := [(''x'', 300)]\<rparr>) ''x'' 300 =
     (False, (RateLimiter_init 5)\<lparr>blocked_ips := []\<rparr>)"
  using expired_block_removed_by_next_call [of "(RateLimiter_init 5)\<lparr>blocked_ips := [(''x'', 300)]\<rparr>" "''x''" 300 300]
  by (simp add: RateLimiter_init_def request_times_of_def is_allowed_def)

text \<open>
  The first loop of \<open>cleanup_expired_entries\<close> does what it is meant to do: no block
  entry that is left has a time in the past.
\<close>

lemma set_fold_delete:
  "set (fold AList.delete ks al) = {p \<in> set al. fst p \<notin> set ks}"
proof (induction ks arbitrary: al)
  case Nil
  then show ?case by simp
next
  case (Cons k ks)
  have "set (AList.delete k al) = {p \<in> set al. fst p \<noteq> k}"
    by (auto simp: AList.delete_eq)
  then show ?case using Cons.IH [of "AList.delete k al"] by auto
qed

lemma cleanup_removes_expired_blocks:
  assumes "(ip, block_time) \<in> set (blocked_ips (cleanup_expired_entries rl current_time))"
  shows "current_time < block_time"
proof -
  let ?ks = "map fst (filter (\<lambda>(ip, block_time). current_time \<ge> block_time) (blocked_ips rl))"
  have "blocked_ips (cleanup_expired_entries rl current_time) =
        fold AList.delete ?ks (blocked_ips rl)"
    by (simp add: cleanup_expired_entries_def Let_def split: prod.splits)
  then have "(ip, block_time) \<in> set (blocked_ips rl)" and "ip \<notin> set ?ks"
    using assms by (simp_all add: set_fold_delete)
  then show ?thesis by force
qed

text \<open>
  Claim C8 at an input where the code leaves a stale list. Two clients have one
  timestamp each, both older than the window at time 100. The loop empties and deletes the
  list of the first client; the next step of the iteration raises, and the list of the
  second client stays, although the eviction empties it.
\<close>

theorem cleanup_leaves_stale_list:
  "requests (cleanup_expired_entries
      ((RateLimiter_init 5)\<lparr>requests := [(''a'', [0]), (''b'', [0])]\<rparr>) 100) = [(''b'', [0])] \<and>
   popleft_old 100 (window_size (config (RateLimiter_init 5))) [0] = []"
  by (simp add: cleanup_expired_entries_def RateLimiter_init_def)

section \<open>Service registry: the health probe and the lists of healthy and unhealthy services\<close>

text \<open>
  Claim C5. The probe classifies an instance as healthy if and only if the request
  returns status 200 and the body either does not parse as a JSON object or is an object
  whose \<open>status\<close> field is the string \<open>healthy\<close>. Any other status code and any
  exception of the request (a timeout, a refused connection) gives unhealthy; a 200 with
  a body that does not parse gives healthy.
\<close>

theorem health_probe_classification:
  "(check_service_health client u \<longleftrightarrow>
      (\<exists>body. client u = Response 200 body \<and>
         (parsed_object body = None \<or>
          (\<exists>data. parsed_object body = Some data \<and>
                  map_of data ''status'' = Some (JStr ''healthy''))))) \<and>
   (\<forall>code body. client u = Response code body \<and> code \<noteq> 200 \<longrightarrow> \<not> check_service_health client u) \<and>
   (\<forall>e. client u = Raised e \<longrightarrow> \<not> check_service_health client u) \<and>
   (client u = Response 200 None \<longrightarrow> check_service_health client u)"
proof -
  have obj: "parsed_object body = Some data \<longleftrightarrow> body = Some (JObj data)" for body data
    by (cases body rule: parsed_object.cases) auto
  have nobj: "parsed_object body = None \<longleftrightarrow> (\<forall>data. body \<noteq> Some (JObj data))" for body
    by (cases body rule: parsed_object.cases) auto
  show ?thesis
  proof (cases "client u")
    case (Raised e)
    then show ?thesis by (simp add: check_service_health_def)
  next
    case (Response code body)
    show ?thesis
    proof (cases "code = 200")
      case False
      then show ?thesis using Response by (simp add: check_service_health_def)
    next
      case True
      show ?thesis
      proof (cases "parsed_object body")
        case None
        then have "\<forall>data. body \<noteq> Some (JObj data)" by (simp add: nobj)
        then have "check_service_health client u"
          using Response True
          by (auto simp: check_service_health_def split: option.splits json.splits)
        then show ?thesis using Response True None by simp
      next
        case (Some data)
        then have "body = Some (JObj data)" by (simp add: obj)
        then show ?thesis using Response True Some
          by (simp add: check_service_health_def)
      qed
    qed
  qed
qed

theorem health_probe_classification_witness:
  "check_service_health (\<lambda>u. Response 200 None) ''http://a/health'' \<and>
   check_service_health (\<lambda>u. Response 200 (Some (JArr []))) ''http://a/health'' \<and>
   check_service_health
     (\<lambda>u. Response 200 (Some (JObj [(''status'', JStr ''healthy'')]))) ''http://a/health'' \<and>
   \<not> check_service_health
     (\<lambda>u. Response 200 (Some (JObj [(''status'', JStr ''degraded'')]))) ''http://a/health'' \<and>
   \<not> check_service_health (\<lambda>u. Response 200 (Some (JObj []))) ''http://a/health'' \<and>
   \<not> check_service_health (\<lambda>u. Response 503 None) ''http://a/health'' \<and>
   \<not> check_service_health (\<lambda>u. Raised TimeoutException) ''http://a/health''"
  using health_probe_classification [of "\<lambda>u. Response 200 None" "''http://a/health''"]
    health_probe_classification [of "\<lambda>u. Response 200 (Some (JArr []))" "''http://a/health''"]
    health_probe_classification [of "\<lambda>u. Response 200 (Some (JObj [(''status'', JStr ''healthy'')]))" "''http://a/health''"]
    health_probe_classification [of "\<lambda>u. Response 200 (Some (JObj [(''status'', JStr ''degraded'')]))" "''http://a/health''"]
    health_probe_classification [of "\<lambda>u. Response 200 (Some (JObj []))" "''http://a/health''"]
    health_probe_classification [of "\<lambda>u. Response 503 None" "''http://a/health''"]
    health_probe_classification [of "\<lambda>u. Raised TimeoutException" "''http://a/health''"]
  by simp





lemma register_service_keys:
  "map fst (services (snd (register_service reg client now n u m))) =
     (if n \<in> set (map fst (services reg)) then map fst (services reg)
      else map fst (services reg) @ [n])"
  by (simp add: register_service_def Let_def update_keys)

lemma register_service_distinct:
  "distinct (map fst (services reg)) \<Longrightarrow>
   distinct (map fst (services (snd (register_service reg client now n u m))))"
  by (simp add: register_service_def Let_def distinct_update)




lemma register_service_stores:
  "snd (register_service reg client now n u m) =
     reg\<lparr>services := AList.update n (registered_info client now n u m) (services reg),
         is_running := True\<rparr>"
  by (simp add: register_service_def registered_info_def Let_def)

lemma register_service_lookup:
  "map_of (services (snd (register_service reg client now n u m))) n' =
     (if n' = n then Some (registered_info client now n u m) else map_of (services reg) n')"
  by (simp add: register_service_stores update_conv')









section \<open>Unary proxy: the status of each failure class\<close>

lemma get_service_url_unregistered:
  "get_service_url (LoadBalancer_init s)
     (snd (register_service ServiceRegistry_init (\<lambda>u. Raised ConnectError) t0
        ''voice-service'' ''http://voice-service:8001'' None))
     now rnd ''voice-service'' = (None, LoadBalancer_init s)"
  by (simp add: get_service_url_def LoadBalancer_init_def registry_get_service_url_def
        register_service_def ServiceRegistry_init_def check_service_health_def Let_def)

lemma get_service_url_healthy:
  "fst (get_service_url (LoadBalancer_init ROUND_ROBIN)
     (snd (register_service ServiceRegistry_init (\<lambda>u. Response 200 None) t0
        ''voice-service'' ''http://voice-service:8001'' None))
     now rnd ''voice-service'') = Some ''http://voice-service:8001''"
  by (simp add: get_service_url_def LoadBalancer_init_def registry_get_service_url_def
        register_service_def ServiceRegistry_init_def check_service_health_def Let_def
        startswith_def ServiceInstance_init_def select_instance_def round_robin_selection_def)

text \<open>
  Claim C1 at an input where the code departs from it. The service is registered but its
  probe was refused, so the balancer has no URL for it; the
  \<^verbatim>\<open>HTTPException(status_code=503)\<close> raised for that inside the \<^verbatim>\<open>try\<close> is caught by
  \<^verbatim>\<open>except Exception\<close> and the client gets 500, the status that an unexpected error
  of the request gets as well. A timeout is answered with 504, a refused connection
  with 503.
\<close>

theorem unavailable_service_answers_500:
  "client_status (fst (proxy_request True (LoadBalancer_init ROUND_ROBIN)
     (snd (register_service ServiceRegistry_init (\<lambda>u. Raised ConnectError) 0
        ''voice-service'' ''http://voice-service:8001'' None))
     http now rnd ''voice-service'' request path)) = Some 500 \<and>
   client_status (fst (proxy_request True (LoadBalancer_init ROUND_ROBIN)
     (snd (register_service ServiceRegistry_init (\<lambda>u. Response 200 None) 0
        ''voice-service'' ''http://voice-service:8001'' None))
     (\<lambda>m u h b. Inl OtherException) now rnd ''voice-service'' request path)) = Some 500 \<and>
   client_status (fst (proxy_request True (LoadBalancer_init ROUND_ROBIN)
     (snd (register_service ServiceRegistry_init (\<lambda>u. Response 200 None) 0
        ''voice-service'' ''http://voice-service:8001'' None))
     (\<lambda>m u h b. Inl TimeoutException) now rnd ''voice-service'' request path)) = Some 504 \<and>
   client_status (fst (proxy_request True (LoadBalancer_init ROUND_ROBIN)
     (snd (register_service ServiceRegistry_init (\<lambda>u. Response 200 None) 0
        ''voice-service'' ''http://voice-service:8001'' None))
     (\<lambda>m u h b. Inl ConnectError) now rnd ''voice-service'' request path)) = Some 503"
proof -
  let ?down = "snd (register_service ServiceRegistry_init (\<lambda>u. Raised ConnectError) 0
        ''voice-service'' ''http://voice-service:8001'' None)"
  let ?up = "snd (register_service ServiceRegistry_init (\<lambda>u. Response 200 None) 0
        ''voice-service'' ''http://voice-service:8001'' None)"
  obtain lb' where up: "get_service_url (LoadBalancer_init ROUND_ROBIN) ?up now rnd ''voice-service''
      = (Some ''http://voice-service:8001'', lb')"
    using get_service_url_healthy [of 0 now rnd]
    by (cases "get_service_url (LoadBalancer_init ROUND_ROBIN) ?up now rnd ''voice-service''") simp
  have a: "client_status (fst (proxy_request True (LoadBalancer_init ROUND_ROBIN) ?down
     http now rnd ''voice-service'' request path)) = Some 500"
    by (simp add: proxy_request_def get_service_url_unregistered proxy_request_try_def
          client_status_def)
  have b: "client_status (fst (proxy_request True (LoadBalancer_init ROUND_ROBIN) ?up
     (\<lambda>m u h b. Inl e) now rnd ''voice-service'' request path)) =
       Some (case e of TimeoutException \<Rightarrow> 504 | ConnectError \<Rightarrow> 503 | _ \<Rightarrow> 500)" for e
    by (cases e) (simp_all add: proxy_request_def up proxy_request_try_def client_status_def Let_def)
  show ?thesis
    using a b [of OtherException] b [of TimeoutException] b [of ConnectError] by simp
qed

section \<open>Gateway state: one record per name, instances distinct by address\<close>

lemma set_update_subset: "set (AList.update k v al) \<subseteq> insert (k, v) (set al)"
  by (induction al) auto

lemma set_delete_subset: "set (AList.delete k al) \<subseteq> set al"
  by (induction al) auto

lemma instances_ok_update:
  assumes "instances_ok d" and "distinct (map url_inst v)"
  shows "instances_ok (AList.update k v d)"
proof -
  have keys: "distinct (map fst (AList.update k v d))"
    using assms(1) by (simp add: instances_ok_def distinct_update)
  have "distinct (map url_inst xs)" if "(n, xs) \<in> set (AList.update k v d)" for n xs
  proof -
    have "(n, xs) = (k, v) \<or> (n, xs) \<in> set d"
      using that set_update_subset [of k v d] by blast
    then show ?thesis
    proof
      assume "(n, xs) = (k, v)"
      then show ?thesis using assms(2) by simp
    next
      assume "(n, xs) \<in> set d"
      then show ?thesis using assms(1) unfolding instances_ok_def by blast
    qed
  qed
  then show ?thesis using keys unfolding instances_ok_def by blast
qed

lemma instances_ok_delete:
  assumes "instances_ok d"
  shows "instances_ok (AList.delete k d)"
proof -
  have keys: "distinct (map fst (AList.delete k d))"
    using assms by (simp add: instances_ok_def distinct_delete)
  have "distinct (map url_inst xs)" if "(n, xs) \<in> set (AList.delete k d)" for n xs
  proof -
    have "(n, xs) \<in> set d" using that set_delete_subset [of k d] by blast
    then show ?thesis using assms unfolding instances_ok_def by blast
  qed
  then show ?thesis using keys unfolding instances_ok_def by blast
qed

lemma instances_ok_lookup:
  assumes "instances_ok d" and "map_of d k = Some xs"
  shows "distinct (map url_inst xs)"
proof -
  have "(k, xs) \<in> set d" using assms(2) by (rule map_of_SomeD)
  then show ?thesis using assms(1) unfolding instances_ok_def by blast
qed

lemma map_url_list_update:
  assumes "url_inst y = url_inst (xs ! i)"
  shows "map url_inst (xs[i := y]) = map url_inst xs"
proof (cases "i < length xs")
  case True
  then show ?thesis using assms by (simp add: map_update list_update_same_conv)
next
  case False
  then have "length xs \<le> i" by simp
  then show ?thesis by (simp add: list_update_beyond)
qed

lemma select_instance_instances:
  "select_instance lb rnd n xs = Inr (r, lb2) \<Longrightarrow> service_instances lb2 = service_instances lb"
  by (auto simp: select_instance_def split: if_splits LoadBalancingStrategy.splits sum.splits)

lemma get_service_url_preserves:
  assumes P0: "P (service_instances lb)"
    and upd: "\<And>v d. P d \<Longrightarrow> ok v \<Longrightarrow> P (AList.update n v d)"
    and new: "\<And>u. ok [ServiceInstance_init u 1]"
    and old: "\<And>xs. map_of (service_instances lb) n = Some xs \<Longrightarrow> ok xs"
    and bump: "\<And>xs i y. ok xs \<Longrightarrow> url_inst y = url_inst (xs ! i) \<Longrightarrow> ok (xs[i := y])"
  shows "P (service_instances (snd (get_service_url lb reg now rnd n)))"
proof -
  define stored where "stored = (case map_of (service_instances lb) n of None \<Rightarrow> [] | Some xs \<Rightarrow> xs)"
  have ds: "stored \<noteq> [] \<longrightarrow> ok stored"
    using old by (cases "map_of (service_instances lb) n") (simp_all add: stored_def)
  define created where "created = (if stored = [] then
                       (case registry_get_service_url reg n of
                          Some service_url \<Rightarrow>
                            if service_url \<noteq> [] then Some [ServiceInstance_init service_url 1]
                            else None
                        | None \<Rightarrow> None)
                     else Some stored)"
  show ?thesis
  proof (cases created)
    case None
    then show ?thesis
      using P0 unfolding get_service_url_def Let_def stored_def [symmetric] created_def [symmetric]
      by simp
  next
    case (Some instances)
    have di: "ok instances"
    proof (cases "stored = []")
      case True
      then obtain u where "instances = [ServiceInstance_init u 1]"
        using Some by (auto simp: created_def split: if_splits option.splits)
      then show ?thesis using new by simp
    next
      case False
      then have "instances = stored" using Some by (simp add: created_def)
      then show ?thesis using ds False by simp
    qed
    define lb1 where "lb1 = (if stored = [] then
                           lb\<lparr>service_instances :=
                                AList.update n instances (service_instances lb)\<rparr>
                         else lb)"
    have ok1: "P (service_instances lb1)"
      using P0 upd [OF P0 di] by (simp add: lb1_def)
    define healthy where "healthy = filter (\<lambda>i. is_healthy_inst (instances ! i)) [0..<length instances]"
    have eq: "get_service_url lb reg now rnd n =
          (if healthy = [] then (None, lb1)
           else
             (case select_instance lb1 rnd n (map ((!) instances) healthy) of
                Inl e \<Rightarrow> (None, lb1)
              | Inr (None, lb2) \<Rightarrow> (None, lb2)
              | Inr (Some j, lb2) \<Rightarrow>
                  (let i = healthy ! j;
                       selected_instance = instances ! i;
                       selected_instance' =
                         selected_instance\<lparr>active_connections :=
                                              active_connections selected_instance + 1,
                                            last_used := now\<rparr>
                   in (Some (url_inst selected_instance'),
                       lb2\<lparr>service_instances :=
                             AList.update n (instances[i := selected_instance'])
                               (service_instances lb2)\<rparr>))))"
      unfolding get_service_url_def Let_def stored_def [symmetric] created_def [symmetric] Some
        option.case lb1_def [symmetric] healthy_def [symmetric]
      by (rule refl)
    show ?thesis
      unfolding eq
    proof (cases "healthy = []")
      case True
      then show "P (service_instances (snd (if healthy = [] then (None, lb1)
           else
             (case select_instance lb1 rnd n (map ((!) instances) healthy) of
                Inl e \<Rightarrow> (None, lb1)
              | Inr (None, lb2) \<Rightarrow> (None, lb2)
              | Inr (Some j, lb2) \<Rightarrow>
                  (let i = healthy ! j;
                       selected_instance = instances ! i;
                       selected_instance' =
                         selected_instance\<lparr>active_connections :=
                                              active_connections selected_instance + 1,
                                            last_used := now\<rparr>
                   in (Some (url_inst selected_instance'),
                       lb2\<lparr>service_instances :=
                             AList.update n (instances[i := selected_instance'])
                               (service_instances lb2)\<rparr>))))))"
        using ok1 by simp
    next
      case False
      show "P (service_instances (snd (if healthy = [] then (None, lb1)
           else
             (case select_instance lb1 rnd n (map ((!) instances) healthy) of
                Inl e \<Rightarrow> (None, lb1)
              | Inr (None, lb2) \<Rightarrow> (None, lb2)
              | Inr (Some j, lb2) \<Rightarrow>
                  (let i = healthy ! j;
                       selected_instance = instances ! i;
                       selected_instance' =
                         selected_instance\<lparr>active_connections :=
                                              active_connections selected_instance + 1,
                                            last_used := now\<rparr>
                   in (Some (url_inst selected_instance'),
                       lb2\<lparr>service_instances :=
                             AList.update n (instances[i := selected_instance'])
                               (service_instances lb2)\<rparr>))))))"
      proof (cases "select_instance lb1 rnd n (map ((!) instances) healthy)")
        case (Inl e)
        then show ?thesis using ok1 by (simp only: False if_False sum.case snd_conv)
      next
        case (Inr p)
        obtain r lb2 where p: "p = (r, lb2)" by (cases p)
        have same: "service_instances lb2 = service_instances lb1"
          using Inr unfolding p by (rule select_instance_instances)
        have ok2: "P (service_instances lb2)" using ok1 same by simp
        show ?thesis
        proof (cases r)
          case None
          show ?thesis
            using ok2 unfolding Inr p None
            by (simp only: False if_False sum.case prod.case option.case snd_conv)
        next
          case (Some j)
          let ?i = "healthy ! j"
          let ?sel = "(instances ! ?i)\<lparr>active_connections := active_connections (instances ! ?i) + 1,
                                        last_used := now\<rparr>"
          have "ok (instances[?i := ?sel])"
            by (rule bump [OF di]) simp
          then have fin: "P (AList.update n (instances[?i := ?sel]) (service_instances lb2))"
            by (rule upd [OF ok2])
          have sel: "service_instances (lb2\<lparr>service_instances :=
                       AList.update n (instances[?i := ?sel]) (service_instances lb2)\<rparr>) =
                     AList.update n (instances[?i := ?sel]) (service_instances lb2)" by simp
          show ?thesis
            using fin unfolding Inr p Some
            by (simp only: False if_False sum.case prod.case option.case snd_conv Let_def sel)
        qed
      qed
    qed
  qed
qed

lemma get_service_url_ok:
  assumes "instances_ok (service_instances lb)"
  shows "instances_ok (service_instances (snd (get_service_url lb reg now rnd n)))"
proof (rule get_service_url_preserves
         [where P = instances_ok and ok = "\<lambda>v. distinct (map url_inst v)"])
  show "instances_ok (service_instances lb)" by (rule assms)
next
  fix v :: "ServiceInstance list" and d
  assume "instances_ok d" "distinct (map url_inst v)"
  then show "instances_ok (AList.update n v d)" by (rule instances_ok_update)
next
  fix u show "distinct (map url_inst [ServiceInstance_init u 1])" by simp
next
  fix xs :: "ServiceInstance list"
  assume "map_of (service_instances lb) n = Some xs"
  with assms show "distinct (map url_inst xs)" by (rule instances_ok_lookup)
next
  fix xs :: "ServiceInstance list" and i and y :: ServiceInstance
  assume "distinct (map url_inst xs)" "url_inst y = url_inst (xs ! i)"
  then show "distinct (map url_inst (xs[i := y]))" by (simp add: map_url_list_update)
qed

lemma get_service_url_keys:
  assumes "distinct (map fst (service_instances lb))"
  shows "distinct (map fst (service_instances (snd (get_service_url lb reg now rnd n))))"
proof (rule get_service_url_preserves
         [where P = "\<lambda>d. distinct (map fst d)" and ok = "\<lambda>v. True"])
  show "distinct (map fst (service_instances lb))" by (rule assms)
next
  fix v :: "ServiceInstance list" and d :: "(string \<times> ServiceInstance list) list"
  assume "distinct (map fst d)"
  then show "distinct (map fst (AList.update n v d))" by (rule distinct_update)
qed simp_all

lemma add_service_instance_keys:
  "distinct (map fst (service_instances lb)) \<Longrightarrow>
   distinct (map fst (service_instances (snd (add_service_instance lb n u w))))"
  by (simp add: add_service_instance_def Let_def distinct_update)

lemma remove_service_instance_keys:
  "distinct (map fst (service_instances lb)) \<Longrightarrow>
   distinct (map fst (service_instances (snd (remove_service_instance lb n u))))"
  by (cases "map_of (service_instances lb) n")
     (simp_all add: remove_service_instance_def Let_def distinct_update distinct_delete)

lemma update_instance_health_keys:
  "distinct (map fst (service_instances lb)) \<Longrightarrow>
   distinct (map fst (service_instances (snd (update_instance_health lb n u h))))"
  by (simp add: update_instance_health_def distinct_update split: option.splits)

lemma update_instance_response_time_keys:
  "distinct (map fst (service_instances lb)) \<Longrightarrow>
   distinct (map fst (service_instances (snd (update_instance_response_time lb n u rt))))"
  by (simp add: update_instance_response_time_def distinct_update split: option.splits)

lemma add_service_instance_ok:
  assumes "instances_ok (service_instances lb)"
    and "u \<notin> set (case map_of (service_instances lb) n of None \<Rightarrow> [] | Some xs \<Rightarrow> map url_inst xs)"
  shows "instances_ok (service_instances (snd (add_service_instance lb n u w)))"
proof -
  have "distinct (map url_inst
          ((case map_of (service_instances lb) n of None \<Rightarrow> [] | Some xs \<Rightarrow> xs) @
           [ServiceInstance_init u w]))"
    using assms
    by (auto simp: ServiceInstance_init_def dest: instances_ok_lookup split: option.splits)
  then show ?thesis
    using assms(1) by (simp add: add_service_instance_def Let_def instances_ok_update)
qed

lemma remove_service_instance_ok:
  assumes "instances_ok (service_instances lb)"
  shows "instances_ok (service_instances (snd (remove_service_instance lb n u)))"
proof (cases "map_of (service_instances lb) n")
  case None
  then show ?thesis using assms by (simp add: remove_service_instance_def)
next
  case (Some xs)
  have "distinct (map url_inst (filter (\<lambda>inst. url_inst inst \<noteq> u) xs))"
    using instances_ok_lookup [OF assms Some] by (rule distinct_map_filter)
  then show ?thesis
    using assms Some
    by (simp add: remove_service_instance_def Let_def instances_ok_update instances_ok_delete)
qed

lemma update_first_urls:
  assumes "update_first u f xs = Some xs'" and "\<And>x. url_inst (f x) = url_inst x"
  shows "map url_inst xs' = map url_inst xs"
  using assms(1)
proof (induction xs arbitrary: xs')
  case Nil
  then show ?case by simp
next
  case (Cons x xs)
  then show ?case using assms(2) by (auto split: if_splits)
qed

lemma update_instance_health_ok:
  assumes "instances_ok (service_instances lb)"
  shows "instances_ok (service_instances (snd (update_instance_health lb n u h)))"
proof (cases "map_of (service_instances lb) n")
  case None
  then show ?thesis using assms by (simp add: update_instance_health_def)
next
  case (Some xs)
  show ?thesis
  proof (cases "update_first u (\<lambda>inst. inst\<lparr>is_healthy_inst := h\<rparr>) xs")
    case None
    then show ?thesis using assms Some by (simp add: update_instance_health_def)
  next
    case (Some xs')
    have "map url_inst xs' = map url_inst xs"
      using Some by (rule update_first_urls) simp
    then have "distinct (map url_inst xs')"
      using instances_ok_lookup [OF assms \<open>map_of (service_instances lb) n = Some xs\<close>] by simp
    then show ?thesis
      using assms Some \<open>map_of (service_instances lb) n = Some xs\<close>
      by (simp add: update_instance_health_def instances_ok_update)
  qed
qed

lemma update_instance_response_time_ok:
  assumes "instances_ok (service_instances lb)"
  shows "instances_ok (service_instances (snd (update_instance_response_time lb n u rt)))"
proof (cases "map_of (service_instances lb) n")
  case None
  then show ?thesis using assms by (simp add: update_instance_response_time_def)
next
  case (Some xs)
  show ?thesis
  proof (cases "update_first u (\<lambda>inst. inst\<lparr>response_time_inst := rt\<rparr>) xs")
    case None
    then show ?thesis using assms Some by (simp add: update_instance_response_time_def)
  next
    case (Some xs')
    have "map url_inst xs' = map url_inst xs"
      using Some by (rule update_first_urls) simp
    then have "distinct (map url_inst xs')"
      using instances_ok_lookup [OF assms \<open>map_of (service_instances lb) n = Some xs\<close>] by simp
    then show ?thesis
      using assms Some \<open>map_of (service_instances lb) n = Some xs\<close>
      by (simp add: update_instance_response_time_def instances_ok_update)
  qed
qed

lemma unregister_service_distinct:
  "distinct (map fst (services reg)) \<Longrightarrow>
   distinct (map fst (services (snd (unregister_service reg n))))"
  by (simp add: unregister_service_def distinct_delete split: option.splits)

lemma health_monitoring_round_keys:
  "map fst (services (health_monitoring_round reg client now timer)) = map fst (services reg)"
  by (simp add: health_monitoring_round_def case_prod_unfold comp_def)

lemma gateway_ok_iff:
  "unique_records g \<and> unique_addresses g \<longleftrightarrow>
   distinct (map fst (services (registry g))) \<and> instances_ok (service_instances (balancer g))"
  by (auto simp: unique_records_def unique_addresses_def instances_ok_def)

lemma apply_op_ok:
  assumes "distinct (map fst (services (registry g)))"
    and "instances_ok (service_instances (balancer g))"
    and "adds_new_address g op"
  shows "distinct (map fst (services (registry (apply_op g op)))) \<and>
         instances_ok (service_instances (balancer (apply_op g op)))"
proof (cases op)
  case (Register client now n u m)
  then show ?thesis using assms by (simp add: register_service_distinct)
next
  case (Unregister n)
  then show ?thesis using assms by (simp add: unregister_service_distinct)
next
  case (HealthRound client now timer)
  then show ?thesis using assms by (simp add: health_monitoring_round_keys)
next
  case RegistryCleanup
  then show ?thesis using assms by (simp add: registry_cleanup_def)
next
  case (Resolve now rnd n)
  then show ?thesis using assms by (simp add: get_service_url_ok)
next
  case (AddInstance n u w)
  then have "u \<notin> set (case map_of (service_instances (balancer g)) n of
                          None \<Rightarrow> [] | Some xs \<Rightarrow> map url_inst xs)"
    using assms(3) by (simp add: addresses_of_def)
  then show ?thesis using assms AddInstance by (simp add: add_service_instance_ok)
next
  case (RemoveInstance n u)
  then show ?thesis using assms by (simp add: remove_service_instance_ok)
next
  case (UpdateHealth n u h)
  then show ?thesis using assms by (simp add: update_instance_health_ok)
next
  case (UpdateResponseTime n u rt)
  then show ?thesis using assms by (simp add: update_instance_response_time_ok)
next
  case (SetStrategy s)
  then show ?thesis using assms by (simp add: set_strategy_def)
next
  case BalancerCleanup
  then show ?thesis using assms by (simp add: lb_cleanup_def instances_ok_def)
qed

lemma apply_op_records:
  assumes "unique_records g"
  shows "unique_records (apply_op g op)"
proof (cases op)
  case (Register client now n u m)
  then show ?thesis using assms by (simp add: unique_records_def register_service_distinct)
next
  case (Unregister n)
  then show ?thesis using assms by (simp add: unique_records_def unregister_service_distinct)
next
  case (HealthRound client now timer)
  then show ?thesis using assms by (simp add: unique_records_def health_monitoring_round_keys)
next
  case RegistryCleanup
  then show ?thesis using assms by (simp add: unique_records_def registry_cleanup_def)
next
  case (Resolve now rnd n)
  then show ?thesis using assms by (simp add: unique_records_def get_service_url_keys)
next
  case (AddInstance n u w)
  then show ?thesis using assms by (simp add: unique_records_def add_service_instance_keys)
next
  case (RemoveInstance n u)
  then show ?thesis using assms by (simp add: unique_records_def remove_service_instance_keys)
next
  case (UpdateHealth n u h)
  then show ?thesis using assms by (simp add: unique_records_def update_instance_health_keys)
next
  case (UpdateResponseTime n u rt)
  then show ?thesis
    using assms by (simp add: unique_records_def update_instance_response_time_keys)
next
  case (SetStrategy s)
  then show ?thesis using assms by (simp add: unique_records_def set_strategy_def)
next
  case BalancerCleanup
  then show ?thesis using assms by (simp add: unique_records_def lb_cleanup_def)
qed

lemma add_service_instance_addresses:
  "addresses_of (apply_op g (AddInstance n u w)) n = addresses_of g n @ [u]"
  by (simp add: addresses_of_def add_service_instance_def Let_def update_conv'
        ServiceInstance_init_def split: option.splits)

text \<open>
  Claim C7, as it is stated, at an input where it fails. \<open>add_service_instance\<close> is
  called twice with the same service name and address on the new gateway: the second
  call appends a second instance with that address, so the instances under the name are
  not distinct by address.
\<close>

theorem duplicate_address_is_appended:
  "addresses_of
     (apply_op (apply_op gateway_init (AddInstance ''svc'' ''http://a:1'' 1))
        (AddInstance ''svc'' ''http://a:1'' 1)) ''svc'' = [''http://a:1'', ''http://a:1''] \<and>
   \<not> unique_addresses
     (apply_op (apply_op gateway_init (AddInstance ''svc'' ''http://a:1'' 1))
        (AddInstance ''svc'' ''http://a:1'' 1))"
  by (simp add: unique_addresses_def addresses_of_def gateway_init_def LoadBalancer_init_def
        add_service_instance_def ServiceInstance_init_def)

text \<open>
  Claim C7, amended. In every state that the gateway reaches by its operations, a service
  name has at most one record in the registry and at most one list of instances in the
  balancer; every operation preserves this. Registering a name puts the record of that
  registration under the name and leaves the records of all other names as they are;
  when the name is registered already, the names of the registry and their order stay as
  they are, so the record is replaced in place. In every state that is reached without an
  \<open>add_service_instance\<close> for an address already stored under the name, the instances
  under one name are pairwise distinct by address; every operation but such an add
  preserves this. \<open>add_service_instance\<close> always appends the address to those of the
  name, also when it is there already.
\<close>

theorem reachable_gateway_unique:
  "(reachable g \<longrightarrow> unique_records g) \<and>
   (reachable_new_addresses g \<longrightarrow> unique_records g \<and> unique_addresses g) \<and>
   (unique_records g0 \<longrightarrow> unique_records (apply_op g0 op)) \<and>
   (unique_records g0 \<and> unique_addresses g0 \<and> adds_new_address g0 op \<longrightarrow>
      unique_addresses (apply_op g0 op)) \<and>
   map_of (services (registry (apply_op g0 (Register client now n u m)))) n =
     Some (registered_info client now n u m) \<and>
   (\<forall>n'. n' \<noteq> n \<longrightarrow>
      map_of (services (registry (apply_op g0 (Register client now n u m)))) n' =
      map_of (services (registry g0)) n') \<and>
   (n \<in> set (map fst (services (registry g0))) \<longrightarrow>
      map fst (services (registry (apply_op g0 (Register client now n u m)))) =
      map fst (services (registry g0))) \<and>
   map fst (services (registry
     (apply_op (apply_op g0 (Register client now n u m)) (Register client' now' n u' m')))) =
   map fst (services (registry (apply_op g0 (Register client now n u m)))) \<and>
   addresses_of (apply_op g0 (AddInstance n u w)) n = addresses_of g0 n @ [u]"
proof -
  have init: "unique_records gateway_init \<and> unique_addresses gateway_init"
    by (simp add: unique_records_def unique_addresses_def gateway_init_def
          ServiceRegistry_init_def LoadBalancer_init_def)
  have rec: "unique_records g" if "reachable g"
    using that
  proof (induction rule: reachable.induct)
    case init
    show ?case using \<open>unique_records gateway_init \<and> unique_addresses gateway_init\<close> by simp
  next
    case (step g op)
    then show ?case by (simp add: apply_op_records)
  qed
  have inv: "unique_records g \<and> unique_addresses g" if "reachable_new_addresses g"
    using that
  proof (induction rule: reachable_new_addresses.induct)
    case init
    show ?case using \<open>unique_records gateway_init \<and> unique_addresses gateway_init\<close> .
  next
    case (step g op)
    then show ?case
      unfolding gateway_ok_iff using apply_op_ok [of g op] by blast
  qed
  have pres1: "unique_records (apply_op g0 op)" if "unique_records g0"
    using that by (rule apply_op_records)
  have pres2: "unique_addresses (apply_op g0 op)"
    if "unique_records g0 \<and> unique_addresses g0 \<and> adds_new_address g0 op"
  proof -
    have "distinct (map fst (services (registry g0)))"
      and "instances_ok (service_instances (balancer g0))"
      using that gateway_ok_iff [of g0] by blast+
    then have "distinct (map fst (services (registry (apply_op g0 op)))) \<and>
               instances_ok (service_instances (balancer (apply_op g0 op)))"
      using that by (intro apply_op_ok) simp_all
    then show ?thesis using gateway_ok_iff [of "apply_op g0 op"] by blast
  qed
  have look: "map_of (services (registry (apply_op g0 (Register client now n u m)))) n =
     Some (registered_info client now n u m)"
    by (simp add: register_service_lookup)
  have others: "map_of (services (registry (apply_op g0 (Register client now n u m)))) n' =
      map_of (services (registry g0)) n'" if "n' \<noteq> n" for n'
    using that by (simp add: register_service_lookup)
  have keys: "map fst (services (registry (apply_op g0 (Register client now n u m)))) =
      map fst (services (registry g0))" if "n \<in> set (map fst (services (registry g0)))"
    using that by (simp add: register_service_keys)
  have "n \<in> set (map fst (services (snd (register_service (registry g0) client now n u m))))"
    by (simp add: register_service_keys)
  then have twice: "map fst (services (registry
     (apply_op (apply_op g0 (Register client now n u m)) (Register client' now' n u' m')))) =
   map fst (services (registry (apply_op g0 (Register client now n u m))))"
    by (simp add: register_service_keys [of "snd (register_service (registry g0) client now n u m)"])
  have add: "addresses_of (apply_op g0 (AddInstance n u w)) n = addresses_of g0 n @ [u]"
    by (rule add_service_instance_addresses)
  show ?thesis using rec inv pres1 pres2 look others keys twice add by blast
qed

theorem reachable_gateway_unique_witness:
  "reachable
     (apply_op (apply_op gateway_init (AddInstance ''svc'' ''http://a:1'' 1))
        (AddInstance ''svc'' ''http://a:1'' 1)) \<and>
   unique_records
     (apply_op (apply_op gateway_init (AddInstance ''svc'' ''http://a:1'' 1))
        (AddInstance ''svc'' ''http://a:1'' 1)) \<and>
   reachable_new_addresses
     (apply_op
        (apply_op (apply_op gateway_init (Register (\<lambda>u. Response 200 None) 0 ''svc'' ''a:1'' None))
           (AddInstance ''svc'' ''http://a:1'' 1))
        (AddInstance ''svc'' ''http://b:2'' 1)) \<and>
   unique_records
     (apply_op
        (apply_op (apply_op gateway_init (Register (\<lambda>u. Response 200 None) 0 ''svc'' ''a:1'' None))
           (AddInstance ''svc'' ''http://a:1'' 1))
        (AddInstance ''svc'' ''http://b:2'' 1)) \<and>
   unique_addresses
     (apply_op
        (apply_op (apply_op gateway_init (Register (\<lambda>u. Response 200 None) 0 ''svc'' ''a:1'' None))
           (AddInstance ''svc'' ''http://a:1'' 1))
        (AddInstance ''svc'' ''http://b:2'' 1)) \<and>
   map_of (services (registry
     (apply_op (apply_op gateway_init (Register (\<lambda>u. Response 200 None) 0 ''svc'' ''a:1'' None))
        (Register (\<lambda>u. Raised ConnectError) 1 ''svc'' ''b:2'' None)))) ''svc'' =
     Some (registered_info (\<lambda>u. Raised ConnectError) 1 ''svc'' ''b:2'' None) \<and>
   map fst (services (registry
     (apply_op (apply_op gateway_init (Register (\<lambda>u. Response 200 None) 0 ''svc'' ''a:1'' None))
        (Register (\<lambda>u. Raised ConnectError) 1 ''svc'' ''b:2'' None)))) = [''svc'']"
proof -
  let ?d1 = "apply_op gateway_init (AddInstance ''svc'' ''http://a:1'' 1)"
  let ?d2 = "apply_op ?d1 (AddInstance ''svc'' ''http://a:1'' 1)"
  let ?g1 = "apply_op gateway_init (Register (\<lambda>u. Response 200 None) 0 ''svc'' ''a:1'' None)"
  let ?g2 = "apply_op ?g1 (AddInstance ''svc'' ''http://a:1'' 1)"
  let ?g3 = "apply_op ?g2 (AddInstance ''svc'' ''http://b:2'' 1)"
  let ?h2 = "apply_op ?g1 (Register (\<lambda>u. Raised ConnectError) 1 ''svc'' ''b:2'' None)"
  have d2: "reachable ?d2"
    by (rule reachable.step [OF reachable.step [OF reachable.init]])
  have r1: "reachable_new_addresses ?g1"
    by (rule reachable_new_addresses.step [OF reachable_new_addresses.init]) simp
  have r2: "reachable_new_addresses ?g2"
    by (rule reachable_new_addresses.step [OF r1])
       (simp add: addresses_of_def gateway_init_def LoadBalancer_init_def)
  have r3: "reachable_new_addresses ?g3"
    by (rule reachable_new_addresses.step [OF r2])
       (simp add: addresses_of_def gateway_init_def LoadBalancer_init_def
          add_service_instance_def ServiceInstance_init_def)
  have k1: "map fst (services (registry ?g1)) = [''svc'']"
    by (simp add: register_service_keys gateway_init_def ServiceRegistry_init_def)
  have a: "unique_records ?d2" using d2 reachable_gateway_unique [of ?d2] by blast
  have b: "unique_records ?g3 \<and> unique_addresses ?g3"
    using r3 reachable_gateway_unique [of ?g3] by blast
  have c: "map_of (services (registry ?h2)) ''svc'' =
             Some (registered_info (\<lambda>u. Raised ConnectError) 1 ''svc'' ''b:2'' None)"
    using reachable_gateway_unique
      [where ?g0.0 = ?g1 and client = "\<lambda>u. Raised ConnectError" and now = 1
         and n = "''svc''" and u = "''b:2''" and m = None]
    by blast
  have "''svc'' \<in> set (map fst (services (registry ?g1)))" using k1 by simp
  then have "map fst (services (registry ?h2)) = map fst (services (registry ?g1))"
    using reachable_gateway_unique
      [where ?g0.0 = ?g1 and client = "\<lambda>u. Raised ConnectError" and now = 1
         and n = "''svc''" and u = "''b:2''" and m = None]
    by blast
  then have e: "map fst (services (registry ?h2)) = [''svc'']" using k1 by simp
  show ?thesis using d2 a r3 b c e by blast
qed

section \<open>Load balancer: round robin\<close>

lemma round_robin_selection_eq:
  assumes "ys \<noteq> []"
  shows "round_robin_selection counters n ys =
     Inr (nat ((case map_of counters n of None \<Rightarrow> 0 | Some c \<Rightarrow> c) mod int (length ys)),
          AList.update n
            (((case map_of counters n of None \<Rightarrow> 0 | Some c \<Rightarrow> c) + 1) mod int (length ys))
            counters)"
  using assms
  by (cases "map_of counters n") (simp_all add: round_robin_selection_def Let_def update_conv')

lemma healthy_positions_range:
  "set (filter (\<lambda>i. is_healthy_inst (xs ! i)) [0..<length xs]) =
     {i. i < length xs \<and> is_healthy_inst (xs ! i)}"
  by auto

lemma healthy_positions_map:
  "map ((!) xs) (filter (\<lambda>i. P (xs ! i)) [0..<length xs]) = filter P xs"
proof -
  have "map ((!) xs) (filter (\<lambda>i. P (xs ! i)) [0..<length xs]) =
        filter P (map ((!) xs) [0..<length xs])"
    by (simp add: filter_map comp_def)
  then show ?thesis by (simp add: map_nth)
qed

lemma get_service_url_rr:
  assumes "strategy lb = ROUND_ROBIN"
    and "map_of (service_instances lb) n = Some xs"
    and "filter (\<lambda>i. is_healthy_inst (xs ! i)) [0..<length xs] \<noteq> []"
  shows "get_service_url lb reg now rnd n =
     (let H = filter (\<lambda>i. is_healthy_inst (xs ! i)) [0..<length xs];
          c = (case map_of (round_robin_counters lb) n of None \<Rightarrow> 0 | Some c \<Rightarrow> c);
          i = H ! nat (c mod int (length H))
      in (Some (url_inst (xs ! i)),
          lb\<lparr>round_robin_counters :=
               AList.update n ((c + 1) mod int (length H)) (round_robin_counters lb),
             service_instances :=
               AList.update n
                 (xs[i := (xs ! i)\<lparr>active_connections := active_connections (xs ! i) + 1,
                                    last_used := now\<rparr>])
                 (service_instances lb)\<rparr>))"
proof -
  have ne: "xs \<noteq> []" using assms(3) by auto
  let ?H = "filter (\<lambda>i. is_healthy_inst (xs ! i)) [0..<length xs]"
  have sel: "select_instance lb rnd n (map ((!) xs) ?H) =
     Inr (Some (nat ((case map_of (round_robin_counters lb) n of None \<Rightarrow> 0 | Some c \<Rightarrow> c)
                       mod int (length ?H))),
          lb\<lparr>round_robin_counters :=
               AList.update n
                 (((case map_of (round_robin_counters lb) n of None \<Rightarrow> 0 | Some c \<Rightarrow> c) + 1)
                    mod int (length ?H))
                 (round_robin_counters lb)\<rparr>)"
    using assms(1,3)
    by (simp add: select_instance_def round_robin_selection_eq)
  show ?thesis
    unfolding get_service_url_def Let_def
    using assms(2,3) ne
    by (simp add: sel)
qed


lemma upt_Suc_shift: "[0..<Suc K] = 0 # map Suc [0..<K]"
  by (simp add: upt_conv_Cons map_Suc_upt del: upt_Suc)

lemma length_filter_upt_Suc:
  "length (filter P [0..<Suc K]) =
     (if P 0 then 1 else 0) + length (filter (\<lambda>k. P (Suc k)) [0..<K])"
  unfolding upt_Suc_shift by (simp add: filter_map comp_def)

lemma resolutions_rr:
  assumes "strategy lb = ROUND_ROBIN"
    and "map_of (service_instances lb) n = Some xs"
    and "H = filter (\<lambda>i. is_healthy_inst (xs ! i)) [0..<length xs]"
    and "H \<noteq> []"
    and "c = (case map_of (round_robin_counters lb) n of None \<Rightarrow> 0 | Some c \<Rightarrow> c)"
  shows "fst (resolutions lb reg n es) =
           map (\<lambda>k. Some (url_inst (xs ! (H ! nat ((c + int k) mod int (length H))))))
             [0..<length es] \<and>
         (\<exists>xs'. map_of (service_instances (snd (resolutions lb reg n es))) n = Some xs' \<and>
            length xs' = length xs \<and>
            (\<forall>i < length xs.
               active_connections (xs' ! i) =
                 active_connections (xs ! i) +
                 int (length (filter (\<lambda>k. H ! nat ((c + int k) mod int (length H)) = i)
                        [0..<length es]))))"
  using assms
proof (induction es arbitrary: lb xs c)
  case Nil
  then show ?case by simp
next
  case (Cons e es)
  obtain now rnd where e: "e = (now, rnd)" by (cases e)
  let ?M = "int (length H)"
  let ?i0 = "H ! nat (c mod ?M)"
  let ?xs1 = "xs[?i0 := (xs ! ?i0)\<lparr>active_connections := active_connections (xs ! ?i0) + 1,
                                    last_used := now\<rparr>]"
  let ?c1 = "(c + 1) mod ?M"
  let ?lb1 = "lb\<lparr>round_robin_counters := AList.update n ?c1 (round_robin_counters lb),
                 service_instances := AList.update n ?xs1 (service_instances lb)\<rparr>"
  have Mpos: "0 < ?M" using Cons.prems(4) by simp
  have Hne: "filter (\<lambda>i. is_healthy_inst (xs ! i)) [0..<length xs] \<noteq> []"
    using Cons.prems(3,4) by simp
  have first: "get_service_url lb reg now rnd n = (Some (url_inst (xs ! ?i0)), ?lb1)"
    using get_service_url_rr [OF Cons.prems(1,2) Hne, of reg now rnd] Cons.prems(3,5)
    by (simp add: Let_def)
  have inH: "H ! nat ((c + int k) mod ?M) \<in> set H" for k
  proof -
    have "0 \<le> (c + int k) mod ?M" and "(c + int k) mod ?M < ?M" using Mpos by simp_all
    then have "nat ((c + int k) mod ?M) < length H" by linarith
    then show ?thesis by simp
  qed
  have inrange: "H ! nat ((c + int k) mod ?M) < length xs" for k
    using inH [of k] Cons.prems(3) by simp
  have i0: "?i0 < length xs" using inrange [of 0] by simp
  have s1: "strategy ?lb1 = ROUND_ROBIN" using Cons.prems(1) by simp
  have l1: "map_of (service_instances ?lb1) n = Some ?xs1" by (simp add: update_conv')
  have h1: "H = filter (\<lambda>i. is_healthy_inst (?xs1 ! i)) [0..<length ?xs1]"
  proof -
    have "is_healthy_inst (?xs1 ! i) = is_healthy_inst (xs ! i)" if "i < length xs" for i
      using that by (cases "i = ?i0") simp_all
    then have "filter (\<lambda>i. is_healthy_inst (?xs1 ! i)) [0..<length xs] =
               filter (\<lambda>i. is_healthy_inst (xs ! i)) [0..<length xs]"
      by (intro filter_cong) simp_all
    then show ?thesis using Cons.prems(3) by simp
  qed
  have c1: "?c1 = (case map_of (round_robin_counters ?lb1) n of None \<Rightarrow> 0 | Some c \<Rightarrow> c)"
    by (simp add: update_conv')
  note ih = Cons.IH [OF s1 l1 h1 Cons.prems(4) c1]
  obtain xs' where xs': "map_of (service_instances (snd (resolutions ?lb1 reg n es))) n = Some xs'"
      "length xs' = length ?xs1"
      "\<forall>i < length ?xs1. active_connections (xs' ! i) =
          active_connections (?xs1 ! i) +
          int (length (filter (\<lambda>k. H ! nat ((?c1 + int k) mod ?M) = i) [0..<length es]))"
    using ih by blast
  have shift: "nat ((?c1 + int k) mod ?M) = nat ((c + int (Suc k)) mod ?M)" for k
  proof -
    have e1: "(?c1 + int k) mod ?M = (c + 1 + int k) mod ?M" by (simp add: mod_add_left_eq)
    have e2: "c + int (Suc k) = c + 1 + int k" by simp
    show ?thesis unfolding e1 e2 by (rule refl)
  qed
  have url1: "url_inst (?xs1 ! i) = url_inst (xs ! i)" if "i < length xs" for i
    using that by (cases "i = ?i0") simp_all
  have res: "resolutions lb reg n (e # es) =
      (Some (url_inst (xs ! ?i0)) # fst (resolutions ?lb1 reg n es),
       snd (resolutions ?lb1 reg n es))"
    unfolding e by (simp add: first split: prod.splits)
  have part1: "fst (resolutions lb reg n (e # es)) =
           map (\<lambda>k. Some (url_inst (xs ! (H ! nat ((c + int k) mod ?M))))) [0..<length (e # es)]"
  proof -
    have "fst (resolutions ?lb1 reg n es) =
          map (\<lambda>k. Some (url_inst (?xs1 ! (H ! nat ((?c1 + int k) mod ?M))))) [0..<length es]"
      using ih by blast
    also have "\<dots> = map (\<lambda>k. Some (url_inst (xs ! (H ! nat ((c + int (Suc k)) mod ?M)))))
                      [0..<length es]"
      unfolding shift using inrange by (simp add: url1 del: of_nat_Suc)
    finally have tl: "fst (resolutions ?lb1 reg n es) =
        map (\<lambda>k. Some (url_inst (xs ! (H ! nat ((c + int (Suc k)) mod ?M))))) [0..<length es]" .
    show ?thesis
      unfolding res fst_conv tl
      by (simp add: map_upt_Suc del: upt_Suc of_nat_Suc)
  qed
  have part2: "active_connections (xs' ! i) =
        active_connections (xs ! i) +
        int (length (filter (\<lambda>k. H ! nat ((c + int k) mod ?M) = i) [0..<length (e # es)]))"
    if i: "i < length xs" for i
  proof -
    have a: "active_connections (xs' ! i) =
          active_connections (?xs1 ! i) +
          int (length (filter (\<lambda>k. H ! nat ((c + int (Suc k)) mod ?M) = i) [0..<length es]))"
      using xs'(3) i unfolding shift by simp
    have b: "active_connections (?xs1 ! i) =
          active_connections (xs ! i) + (if ?i0 = i then 1 else 0)"
      using i by (cases "i = ?i0") auto
    have c: "length (filter (\<lambda>k. H ! nat ((c + int k) mod ?M) = i) [0..<length (e # es)]) =
          (if ?i0 = i then 1 else 0) +
          length (filter (\<lambda>k. H ! nat ((c + int (Suc k)) mod ?M) = i) [0..<length es])"
      using length_filter_upt_Suc [of "\<lambda>k. H ! nat ((c + int k) mod ?M) = i" "length es"]
      by (simp del: upt_Suc of_nat_Suc)
    show ?thesis unfolding a b c by simp
  qed
  have "map_of (service_instances (snd (resolutions lb reg n (e # es)))) n = Some xs'"
    unfolding res snd_conv by (rule xs'(1))
  moreover have "length xs' = length xs" using xs'(2) by simp
  ultimately show ?case using part1 part2 by blast
qed


lemma mod_eq_iff_shift:
  fixes y M j :: nat
  assumes "j < M"
  shows "y mod M = j \<longleftrightarrow> (y + M - j) mod M = 0"
proof -
  let ?r = "y mod M"
  have rM: "?r < M" using assms by simp
  have "(y + M - j) mod M = (y + (M - j)) mod M" using assms by simp
  also have "\<dots> = (?r + (M - j)) mod M" by (simp add: mod_add_left_eq)
  finally have e: "(y + M - j) mod M = (?r + (M - j)) mod M" .
  show ?thesis
  proof (cases "?r < j")
    case True
    then have "?r + (M - j) < M" using assms by simp
    then have "(?r + (M - j)) mod M = ?r + (M - j)" by simp
    moreover have "?r + (M - j) \<noteq> 0" using assms by simp
    ultimately show ?thesis using e True by simp
  next
    case False
    then have "?r + (M - j) = (?r - j) + M" using assms by simp
    then have "(?r + (M - j)) mod M = (?r - j) mod M" by simp
    also have "\<dots> = ?r - j" using rM by simp
    finally show ?thesis using e False by auto
  qed
qed

lemma round_robin_hits:
  fixes c0 M j K :: nat
  assumes "j < M" and "c0 < M"
  shows "\<exists>d < M. length (filter (\<lambda>k. (c0 + k) mod M = j) [0..<K]) = (K + M - 1 - d) div M"
proof -
  define d where "d = (if c0 \<le> j then j - c0 else j + M - c0)"
  have dM: "d < M" using assms by (auto simp: d_def)
  have hit: "(c0 + k) mod M = j \<longleftrightarrow> Suc (k + M - 1 - d) mod M = 0" for k
  proof -
    have "Suc (k + M - 1 - d) = k + M - d" using dM by simp
    moreover have "(k + M - d) mod M = (c0 + k + M - j) mod M"
    proof (cases "c0 \<le> j")
      case True
      then have "k + M - d = c0 + k + M - j" using assms by (simp add: d_def)
      then show ?thesis by simp
    next
      case False
      then have "k + M - d + M = c0 + k + M - j" using assms by (simp add: d_def)
      then have "(c0 + k + M - j) mod M = (k + M - d + M) mod M" by simp
      then show ?thesis by simp
    qed
    ultimately show ?thesis using mod_eq_iff_shift [OF assms(1), of "c0 + k"] by simp
  qed
  have "length (filter (\<lambda>k. (c0 + k) mod M = j) [0..<K]) = (K + M - 1 - d) div M"
  proof (induction K)
    case 0
    have "M - 1 - d < M" using dM by simp
    then show ?case by simp
  next
    case (Suc K)
    have "Suc K + M - 1 - d = Suc (K + M - 1 - d)" using dM by simp
    then show ?case using Suc hit [of K] by (simp add: div_Suc)
  qed
  then show ?thesis using dM by blast
qed

lemma round_robin_floor_ceil:
  fixes c0 M j K :: nat
  assumes "j < M" and "c0 < M"
  shows "length (filter (\<lambda>k. (c0 + k) mod M = j) [0..<K]) \<in> {K div M, (K + M - 1) div M}"
proof -
  obtain d where d: "d < M"
    and f: "length (filter (\<lambda>k. (c0 + k) mod M = j) [0..<K]) = (K + M - 1 - d) div M"
    using round_robin_hits [OF assms] by blast
  let ?f = "(K + M - 1 - d) div M"
  have lo: "K div M \<le> ?f" using d by (intro div_le_mono) simp
  have hi: "?f \<le> (K + M - 1) div M" by (intro div_le_mono) simp
  have "(K + M - 1) div M \<le> (K + M) div M" by (intro div_le_mono) simp
  also have "\<dots> = K div M + 1"
  proof -
    have "M \<noteq> 0" using assms(1) by simp
    then show ?thesis by (simp add: div_add_self2)
  qed
  finally have "(K + M - 1) div M \<le> K div M + 1" .
  then have "?f = K div M \<or> ?f = (K + M - 1) div M" using lo hi by linarith
  then show ?thesis using f by simp
qed

lemma nat_counter_mod:
  fixes c :: int and k M :: nat
  assumes "0 < M"
  shows "nat ((c + int k) mod int M) = (nat (c mod int M) + k) mod M"
proof -
  have nn: "0 \<le> c mod int M" using assms by simp
  have "(c + int k) mod int M = (c mod int M + int k) mod int M" by (simp add: mod_add_left_eq)
  also have "\<dots> = (int (nat (c mod int M)) + int k) mod int M" using nn by simp
  also have "\<dots> = int ((nat (c mod int M) + k) mod M)" by (simp add: zmod_int)
  finally show ?thesis by simp
qed

lemma count_positions:
  assumes "distinct H" and "i \<in> set H"
  shows "length (filter (\<lambda>k. H ! nat ((c + int k) mod int (length H)) = i) [0..<K])
           \<in> {K div length H, (K + length H - 1) div length H}"
proof -
  let ?M = "length H"
  obtain j where j: "j < ?M" "H ! j = i" using assms(2) by (auto simp: in_set_conv_nth)
  have Mpos: "0 < ?M" using j(1) by (cases H) simp_all
  define c0 where "c0 = nat (c mod int ?M)"
  have c0: "c0 < ?M" using Mpos by (simp add: c0_def nat_less_iff)
  have pos: "nat ((c + int k) mod int ?M) = (c0 + k) mod ?M" for k
    unfolding c0_def by (rule nat_counter_mod [OF Mpos])
  have "(H ! ((c0 + k) mod ?M) = i) = ((c0 + k) mod ?M = j)" for k
  proof -
    have lt: "(c0 + k) mod ?M < ?M" using Mpos by simp
    have "(H ! ((c0 + k) mod ?M) = H ! j) = ((c0 + k) mod ?M = j)"
      by (rule nth_eq_iff_index_eq [OF assms(1) lt j(1)])
    then show ?thesis unfolding j(2) .
  qed
  then have "filter (\<lambda>k. H ! nat ((c + int k) mod int ?M) = i) [0..<K] =
             filter (\<lambda>k. (c0 + k) mod ?M = j) [0..<K]"
    unfolding pos by simp
  then show ?thesis using round_robin_floor_ceil [OF j(1) c0, of K] by simp
qed

lemma count_list_map_filter:
  "count_list (map f l) y = length (filter (\<lambda>k. f k = y) l)"
  by (induction l) auto

text \<open>
  Claim C4. The strategy is round robin and the service has the instances \<open>xs\<close>, of
  which \<open>M > 0\<close> are healthy. After \<open>K\<close> consecutive resolutions (the calls \<open>es\<close>), with
  nothing else touching the balancer, every resolution has returned a URL and every
  healthy instance has been selected \<open>K div M\<close> or \<open>(K + M - 1) div M\<close> times, that is
  \<open>floor(K/M)\<close> or \<open>ceil(K/M)\<close>: its \<open>active_connections\<close>, which each selection
  increments, has grown by that number, and when the healthy instances have distinct
  URLs its URL occurs that often among the results. An unhealthy instance is never
  selected. For every state of the counters and every list of instances that is not
  empty, \<open>round_robin_selection\<close> returns a position inside the list and leaves a
  counter that is reduced modulo the length of the list.
\<close>

theorem round_robin_is_fair:
  assumes "strategy lb = ROUND_ROBIN"
    and "map_of (service_instances lb) n = Some xs"
    and "filter is_healthy_inst xs \<noteq> []"
  shows
    "(\<exists>xs'. map_of (service_instances (snd (resolutions lb reg n es))) n = Some xs' \<and>
        length xs' = length xs \<and>
        (\<forall>i < length xs. is_healthy_inst (xs ! i) \<longrightarrow>
           active_connections (xs' ! i) - active_connections (xs ! i) \<in>
             {int (length es div length (filter is_healthy_inst xs)),
              int ((length es + length (filter is_healthy_inst xs) - 1)
                     div length (filter is_healthy_inst xs))}) \<and>
        (\<forall>i < length xs. \<not> is_healthy_inst (xs ! i) \<longrightarrow>
           active_connections (xs' ! i) = active_connections (xs ! i))) \<and>
     length (fst (resolutions lb reg n es)) = length es \<and>
     None \<notin> set (fst (resolutions lb reg n es)) \<and>
     (distinct (map url_inst (filter is_healthy_inst xs)) \<longrightarrow>
        (\<forall>x \<in> set (filter is_healthy_inst xs).
           count_list (fst (resolutions lb reg n es)) (Some (url_inst x)) \<in>
             {length es div length (filter is_healthy_inst xs),
              (length es + length (filter is_healthy_inst xs) - 1)
                 div length (filter is_healthy_inst xs)})) \<and>
     (\<forall>counters n' ys. (ys :: ServiceInstance list) \<noteq> [] \<longrightarrow>
        (case round_robin_selection counters n' ys of
           Inl e \<Rightarrow> False
         | Inr (j, counters') \<Rightarrow>
             j < length ys \<and>
             (case map_of counters' n' of
                None \<Rightarrow> False
              | Some c' \<Rightarrow> 0 \<le> c' \<and> c' < int (length ys))))"
proof -
  define H where "H = filter (\<lambda>i. is_healthy_inst (xs ! i)) [0..<length xs]"
  define c where "c = (case map_of (round_robin_counters lb) n of None \<Rightarrow> 0 | Some c \<Rightarrow> c)"
  let ?K = "length es"
  let ?pos = "\<lambda>k. nat ((c + int k) mod int (length H))"
  have Hmap: "map ((!) xs) H = filter is_healthy_inst xs"
    unfolding H_def by (rule healthy_positions_map)
  then have M: "length (filter is_healthy_inst xs) = length H"
    by (metis length_map)
  have Hne: "H \<noteq> []" using assms(3) Hmap by auto
  have dH: "distinct H" unfolding H_def by simp
  have setH: "set H = {i. i < length xs \<and> is_healthy_inst (xs ! i)}"
    unfolding H_def by (rule healthy_positions_range)
  have posH: "H ! ?pos k \<in> set H" for k
  proof -
    have "0 < int (length H)" using Hne by simp
    then have "0 \<le> (c + int k) mod int (length H)"
      and "(c + int k) mod int (length H) < int (length H)" by simp_all
    then have "?pos k < length H" by linarith
    then show ?thesis by simp
  qed
  note rr = resolutions_rr [OF assms(1,2) H_def Hne c_def, of reg es]
  obtain xs' where xs': "map_of (service_instances (snd (resolutions lb reg n es))) n = Some xs'"
      "length xs' = length xs"
      "\<forall>i < length xs. active_connections (xs' ! i) =
          active_connections (xs ! i) + int (length (filter (\<lambda>k. H ! ?pos k = i) [0..<?K]))"
    using rr by blast
  have res: "fst (resolutions lb reg n es) =
      map (\<lambda>k. Some (url_inst (xs ! (H ! ?pos k)))) [0..<?K]"
    using rr by blast
  have healthy: "active_connections (xs' ! i) - active_connections (xs ! i) \<in>
             {int (?K div length H), int ((?K + length H - 1) div length H)}"
    if "i < length xs" "is_healthy_inst (xs ! i)" for i
  proof -
    have "i \<in> set H" using that setH by simp
    then have "length (filter (\<lambda>k. H ! ?pos k = i) [0..<?K])
        \<in> {?K div length H, (?K + length H - 1) div length H}"
      by (rule count_positions [OF dH])
    moreover have "active_connections (xs' ! i) - active_connections (xs ! i) =
        int (length (filter (\<lambda>k. H ! ?pos k = i) [0..<?K]))"
      using xs'(3) that(1) by simp
    ultimately show ?thesis by simp
  qed
  have unhealthy: "active_connections (xs' ! i) = active_connections (xs ! i)"
    if "i < length xs" "\<not> is_healthy_inst (xs ! i)" for i
  proof -
    have "i \<notin> set H" using that setH by simp
    then have "H ! ?pos k \<noteq> i" for k using posH [of k] by auto
    then have "filter (\<lambda>k. H ! ?pos k = i) [0..<?K] = []" by simp
    then show ?thesis using xs'(3) that(1) by simp
  qed
  have part1: "\<exists>xs'. map_of (service_instances (snd (resolutions lb reg n es))) n = Some xs' \<and>
        length xs' = length xs \<and>
        (\<forall>i < length xs. is_healthy_inst (xs ! i) \<longrightarrow>
           active_connections (xs' ! i) - active_connections (xs ! i) \<in>
             {int (?K div length H), int ((?K + length H - 1) div length H)}) \<and>
        (\<forall>i < length xs. \<not> is_healthy_inst (xs ! i) \<longrightarrow>
           active_connections (xs' ! i) = active_connections (xs ! i))"
    using xs'(1,2) healthy unhealthy by blast
  have part2: "length (fst (resolutions lb reg n es)) = ?K" unfolding res by simp
  have part3: "None \<notin> set (fst (resolutions lb reg n es))" unfolding res by auto
  have part4: "count_list (fst (resolutions lb reg n es)) (Some (url_inst x)) \<in>
             {?K div length H, (?K + length H - 1) div length H}"
    if d: "distinct (map url_inst (filter is_healthy_inst xs))"
      and x: "x \<in> set (filter is_healthy_inst xs)" for x
  proof -
    have "distinct (map (\<lambda>i. url_inst (xs ! i)) H)"
      using d unfolding Hmap [symmetric] by (simp add: comp_def)
    then have inj: "inj_on (\<lambda>i. url_inst (xs ! i)) (set H)" by (simp add: distinct_map)
    obtain i where i: "i \<in> set H" "x = xs ! i"
      using x unfolding Hmap [symmetric] by auto
    have "(url_inst (xs ! (H ! ?pos k)) = url_inst x) = (H ! ?pos k = i)" for k
      using inj_on_eq_iff [OF inj posH [of k] i(1)] i(2) by simp
    then have "count_list (fst (resolutions lb reg n es)) (Some (url_inst x)) =
        length (filter (\<lambda>k. H ! ?pos k = i) [0..<?K])"
      unfolding res by (simp add: count_list_map_filter)
    then show ?thesis using count_positions [OF dH i(1), of c ?K] by simp
  qed
  have part5: "case round_robin_selection counters n' ys of
           Inl e \<Rightarrow> False
         | Inr (j, counters') \<Rightarrow>
             j < length ys \<and>
             (case map_of counters' n' of
                None \<Rightarrow> False
              | Some c' \<Rightarrow> 0 \<le> c' \<and> c' < int (length ys))"
    if ys: "ys \<noteq> []" for counters n' and ys :: "ServiceInstance list"
  proof -
    have pos: "0 < int (length ys)" using ys by simp
    have "nat (z mod int (length ys)) < length ys" for z
    proof -
      have "0 \<le> z mod int (length ys)" "z mod int (length ys) < int (length ys)"
        using pos by simp_all
      then show ?thesis by linarith
    qed
    then show ?thesis
      using pos by (simp add: round_robin_selection_eq [OF ys] update_conv')
  qed
  have p4: "distinct (map url_inst (filter is_healthy_inst xs)) \<longrightarrow>
        (\<forall>x \<in> set (filter is_healthy_inst xs).
           count_list (fst (resolutions lb reg n es)) (Some (url_inst x)) \<in>
             {?K div length H, (?K + length H - 1) div length H})"
    using part4 by blast
  have p5: "\<forall>counters n' ys. (ys :: ServiceInstance list) \<noteq> [] \<longrightarrow>
        (case round_robin_selection counters n' ys of
           Inl e \<Rightarrow> False
         | Inr (j, counters') \<Rightarrow>
             j < length ys \<and>
             (case map_of counters' n' of
                None \<Rightarrow> False
              | Some c' \<Rightarrow> 0 \<le> c' \<and> c' < int (length ys)))"
    using part5 by blast
  show ?thesis
    unfolding M
    by (rule conjI [OF part1 conjI [OF part2 conjI [OF part3 conjI [OF p4 p5]]]])
qed

theorem round_robin_is_fair_witness:
  "strategy ((LoadBalancer_init ROUND_ROBIN)\<lparr>service_instances :=
       [(''svc'', [ServiceInstance_init ''http://a'' 1, ServiceInstance_init ''http://b'' 1,
                   (ServiceInstance_init ''http://c'' 1)\<lparr>is_healthy_inst := False\<rparr>])]\<rparr>)
     = ROUND_ROBIN \<and>
   filter is_healthy_inst
     [ServiceInstance_init ''http://a'' 1, ServiceInstance_init ''http://b'' 1,
      (ServiceInstance_init ''http://c'' 1)\<lparr>is_healthy_inst := False\<rparr>] \<noteq> [] \<and>
   length (fst (resolutions
     ((LoadBalancer_init ROUND_ROBIN)\<lparr>service_instances :=
       [(''svc'', [ServiceInstance_init ''http://a'' 1, ServiceInstance_init ''http://b'' 1,
                   (ServiceInstance_init ''http://c'' 1)\<lparr>is_healthy_inst := False\<rparr>])]\<rparr>)
     ServiceRegistry_init ''svc'' [(0, 0), (1, 0), (2, 0), (3, 0), (4, 0)])) = 5 \<and>
   count_list (fst (resolutions
     ((LoadBalancer_init ROUND_ROBIN)\<lparr>service_instances :=
       [(''svc'', [ServiceInstance_init ''http://a'' 1, ServiceInstance_init ''http://b'' 1,
                   (ServiceInstance_init ''http://c'' 1)\<lparr>is_healthy_inst := False\<rparr>])]\<rparr>)
     ServiceRegistry_init ''svc'' [(0, 0), (1, 0), (2, 0), (3, 0), (4, 0)])) (Some ''http://a'')
     \<in> {2, 3}"
proof -
  let ?xs = "[ServiceInstance_init ''http://a'' 1, ServiceInstance_init ''http://b'' 1,
              (ServiceInstance_init ''http://c'' 1)\<lparr>is_healthy_inst := False\<rparr>]"
  let ?lb = "(LoadBalancer_init ROUND_ROBIN)\<lparr>service_instances := [(''svc'', ?xs)]\<rparr>"
  let ?es = "[(0, 0), (1, 0), (2, 0), (3, 0), (4, 0)] :: (real \<times> nat) list"
  let ?rs = "fst (resolutions ?lb ServiceRegistry_init ''svc'' ?es)"
  have h1: "strategy ?lb = ROUND_ROBIN" by (simp add: LoadBalancer_init_def)
  have h2: "map_of (service_instances ?lb) ''svc'' = Some ?xs" by simp
  have f: "filter is_healthy_inst ?xs =
           [ServiceInstance_init ''http://a'' 1, ServiceInstance_init ''http://b'' 1]"
    by (simp add: ServiceInstance_init_def)
  have h3: "filter is_healthy_inst ?xs \<noteq> []" unfolding f by simp
  define rs where "rs = fst (resolutions ?lb ServiceRegistry_init ''svc'' ?es)"
  have lf: "length (filter is_healthy_inst ?xs) = 2" unfolding f by simp
  have le: "length ?es = 5" by simp
  note t = round_robin_is_fair [OF h1 h2 h3, of ServiceRegistry_init ?es, folded rs_def, unfolded lf le]
  have len: "length rs = 5" using t by blast
  have imp: "distinct (map url_inst (filter is_healthy_inst ?xs)) \<longrightarrow>
        (\<forall>x \<in> set (filter is_healthy_inst ?xs).
           count_list rs (Some (url_inst x)) \<in> {5 div 2, (5 + 2 - 1) div 2})"
    using t by blast
  have d: "distinct (map url_inst (filter is_healthy_inst ?xs))"
    unfolding f by (simp add: ServiceInstance_init_def)
  have mem: "ServiceInstance_init ''http://a'' 1 \<in> set (filter is_healthy_inst ?xs)"
    unfolding f by simp
  have "count_list rs (Some (url_inst (ServiceInstance_init ''http://a'' 1)))
          \<in> {5 div 2, (5 + 2 - 1) div 2}"
    using imp d mem by blast
  then have cnt: "count_list rs (Some ''http://a'') \<in> {2, 3}"
    by (simp add: ServiceInstance_init_def)
  show ?thesis
    using h1 h3 len cnt unfolding rs_def by blast
qed

end
